theory Spec2Isabelle
  imports Main "HOL-Library.Word" "HOL-Library.Char_ord" "HOL-Library.List_Lexorder"
begin

unbundle bit_operations_syntax

section \<open>The line buffer of buffer.go\<close>

text \<open>
  The effects a buffer has on the outside world, in the order they happen: taking and
  giving back the process-wide mutex \<open>outMu\<close>, and one entry per call of
  \<open>b.w.Write\<close> (or \<open>io.WriteString(b.w, _)\<close>) with the bytes handed to the stream.
  Errors of the stream are ignored by the source and so are absent here.
\<close>

datatype event = MuLock | MuUnlock | WWrite string

text \<open>
  \<open>type buffer struct\<close>. The slice \<open>b.buf\<close> is its bytes \<open>buf\<close> together
  with its capacity \<open>bcap\<close> (\<open>cap(b.buf)\<close>); the bytes of \<open>scratch\<close> beyond
  \<open>len(b.buf)\<close> are never read. The writer \<open>w\<close> and the mutex are represented by
  the \<open>trace\<close> of what was done to them.
\<close>

record buffer =
  buf :: string
  bcap :: nat
  delim :: string
  locked :: bool
  trace :: "event list"

definition scratch_cap :: nat where
  "scratch_cap = 16 * 1024"

definition comma :: string where
  "comma = '', ''"

text \<open>What \<open>bufPool.New\<close> builds: \<open>b.buf = b.scratch[0:0]\<close>, all else zero.\<close>

definition new_buffer :: buffer where
  "new_buffer = \<lparr>buf = [], bcap = scratch_cap, delim = [], locked = False, trace = []\<rparr>"

text \<open>
  Go's built-in \<open>append(b.buf, s...)\<close>: in place when the capacity suffices, else
  into a fresh array whose capacity is the needed length plus whatever the runtime
  adds on top (\<open>g\<close>, a parameter: the language only promises a sufficiently large
  array).
\<close>

type_synonym growth = "nat \<Rightarrow> nat \<Rightarrow> nat"

definition go_append :: "growth \<Rightarrow> buffer \<Rightarrow> string \<Rightarrow> buffer" where
  "go_append g b s =
     (let n = length (buf b) + length s in
      if n \<le> bcap b then b\<lparr>buf := buf b @ s\<rparr>
      else b\<lparr>buf := buf b @ s, bcap := n + g (bcap b) n\<rparr>)"

text \<open>\<open>func (b *buffer) lock()\<close>\<close>

definition lock :: "buffer \<Rightarrow> buffer" where
  "lock b =
     (let b1 = (if \<not> locked b then b\<lparr>locked := True, trace := trace b @ [MuLock]\<rparr> else b) in
      if 0 < length (buf b1)
      then b1\<lparr>buf := [], bcap := scratch_cap, trace := trace b1 @ [WWrite (buf b1)]\<rparr>
      else b1)"

text \<open>\<open>func (b *buffer) unlock()\<close>\<close>

definition unlock :: "buffer \<Rightarrow> buffer" where
  "unlock b =
     (let b1 = (if 0 < length (buf b)
                then b\<lparr>buf := [], bcap := scratch_cap, trace := trace b @ [WWrite (buf b)]\<rparr>
                else b) in
      if locked b1 then b1\<lparr>locked := False, trace := trace b1 @ [MuUnlock]\<rparr> else b1)"

text \<open>\<open>func (b *buffer) writeBytes(s []byte)\<close>\<close>

definition writeBytes :: "growth \<Rightarrow> buffer \<Rightarrow> string \<Rightarrow> buffer" where
  "writeBytes g b s =
     (let b1 = (if bcap b < length (buf b) + length s then lock b else b) in
      if bcap b1 < length s then b1\<lparr>trace := trace b1 @ [WWrite s]\<rparr>
      else go_append g b1 s)"

text \<open>
  The body of the loop of \<open>write\<close>, for one string. The source reslices
  \<open>b.buf[0:was+len(s)]\<close> and copies byte by byte; the reslice stays within the
  capacity on this branch (lemma \<open>write1_reslice_in_bounds\<close> below), so it cannot
  panic and the branch is the plain extension of \<open>buf\<close>.
\<close>

definition write1 :: "buffer \<Rightarrow> string \<Rightarrow> buffer" where
  "write1 b s =
     (let b1 = (if bcap b < length (buf b) + length s then lock b else b) in
      if bcap b1 < length s then b1\<lparr>trace := trace b1 @ [WWrite s]\<rparr>
      else b1\<lparr>buf := buf b1 @ s\<rparr>)"

text \<open>\<open>func (b *buffer) write(strs ...string)\<close> (\<open>write\<close> is an Isabelle keyword).\<close>

fun write_strs :: "buffer \<Rightarrow> string list \<Rightarrow> buffer" where
  "write_strs b [] = b"
| "write_strs b (s # strs) = write_strs (write1 b s) strs"

subsection \<open>Escaping\<close>

text \<open>The table \<open>noEsc\<close> as \<open>init\<close> fills it: true from the space on, but for \<open>"\<close> and \<open>\\<close>.\<close>

definition noEsc :: "char \<Rightarrow> bool" where
  "noEsc c = (32 \<le> (of_char c :: nat) \<and> c \<noteq> CHR 0x22 \<and> c \<noteq> CHR 0x5C)"

definition hexDigits :: string where
  "hexDigits = ''0123456789abcdef''"

text \<open>The inner loop \<open>for o := 5; 1 < o; o--\<close> over the byte \<open>c\<close>.\<close>

fun hex_fill :: "string \<Rightarrow> 8 word \<Rightarrow> nat \<Rightarrow> string" where
  "hex_fill bs c ofs =
     (if 1 < ofs
      then hex_fill (bs[ofs := hexDigits ! unat (c AND 0xF)]) (drop_bit 4 c) (ofs - 1)
      else bs)"

declare hex_fill.simps [simp del]

text \<open>The \<open>switch c\<close> of \<open>escape\<close> and \<open>escapeBytes\<close>: the value of \<open>next\<close>.\<close>

definition escape_next :: "char \<Rightarrow> string" where
  "escape_next c =
     (if c = CHR 0x22 then [CHR 0x5C, CHR 0x22]
      else if c = CHR 0x5C then [CHR 0x5C, CHR 0x5C]
      else if c = CHR 0x08 then [CHR 0x5C, CHR ''b'']
      else if c = CHR 0x0C then [CHR 0x5C, CHR ''f'']
      else if c = CHR 0x0A then [CHR 0x5C, CHR ''n'']
      else if c = CHR 0x0D then [CHR 0x5C, CHR ''r'']
      else if c = CHR 0x09 then [CHR 0x5C, CHR ''t'']
      else hex_fill [CHR 0x5C, CHR ''u'', CHR ''0'', CHR ''0'', CHR ''0'', CHR ''0'']
             (of_char c) 5)"

text \<open>\<open>s[beg:i]\<close>\<close>

definition slice :: "'a list \<Rightarrow> nat \<Rightarrow> nat \<Rightarrow> 'a list" where
  "slice s beg i = take (i - beg) (drop beg s)"

text \<open>\<open>func (b *buffer) escape(s string)\<close>: the loop over \<open>i\<close>, carrying \<open>beg\<close>.\<close>

function escape_loop :: "buffer \<Rightarrow> string \<Rightarrow> nat \<Rightarrow> nat \<Rightarrow> buffer" where
  "escape_loop b s beg i =
     (if i < length s
      then (let c = s ! i in
            if noEsc c then escape_loop b s beg (i + 1)
            else (let next = escape_next c;
                      b1 = write_strs b [slice s beg i];
                      b2 = write_strs b1 [next]
                  in escape_loop b2 s (i + 1) (i + 1)))
      else write_strs b [drop beg s])"
  by pat_completeness auto
termination
  by (relation "measure (\<lambda>(b, s, beg, i). length s - i)") auto

declare escape_loop.simps [simp del]

definition escape :: "buffer \<Rightarrow> string \<Rightarrow> buffer" where
  "escape b s = escape_loop b s 0 0"

text \<open>\<open>func (b *buffer) escapeBytes(s []byte)\<close>\<close>

function escapeBytes_loop :: "growth \<Rightarrow> buffer \<Rightarrow> string \<Rightarrow> nat \<Rightarrow> nat \<Rightarrow> buffer" where
  "escapeBytes_loop g b s beg i =
     (if i < length s
      then (let c = s ! i in
            if noEsc c then escapeBytes_loop g b s beg (i + 1)
            else (let next = escape_next c;
                      b1 = writeBytes g b (slice s beg i);
                      b2 = write_strs b1 [next]
                  in escapeBytes_loop g b2 s (i + 1) (i + 1)))
      else writeBytes g b (drop beg s))"
  by pat_completeness auto
termination
  by (relation "measure (\<lambda>(g, b, s, beg, i). length s - i)") auto

declare escapeBytes_loop.simps [simp del]

definition escapeBytes :: "growth \<Rightarrow> buffer \<Rightarrow> string \<Rightarrow> buffer" where
  "escapeBytes g b s = escapeBytes_loop g b s 0 0"

text \<open>\<open>func (b *buffer) quote(s string)\<close>\<close>

definition quote :: "buffer \<Rightarrow> string \<Rightarrow> buffer" where
  "quote b s =
     (let b1 = write_strs b [delim b, [CHR 0x22]];
          b2 = escape b1 s;
          b3 = write_strs b2 [[CHR 0x22]]
      in b3\<lparr>delim := comma\<rparr>)"

text \<open>\<open>func (b *buffer) quoteBytes(s []byte)\<close>; it leaves \<open>delim\<close> as it is.\<close>

definition quoteBytes :: "growth \<Rightarrow> buffer \<Rightarrow> string \<Rightarrow> buffer" where
  "quoteBytes g b s =
     (let b1 = write_strs b [delim b, [CHR 0x22]];
          b2 = escapeBytes g b1 s
      in write_strs b2 [[CHR 0x22]])"

subsection \<open>The structural writer\<close>

text \<open>\<open>open\<close>, \<open>colon\<close> and \<open>close\<close> (the names \<open>open\<close> and \<open>close\<close> are taken by Isabelle).\<close>

definition open_punct :: "buffer \<Rightarrow> string \<Rightarrow> buffer" where
  "open_punct b punct = (write_strs b [delim b, punct])\<lparr>delim := []\<rparr>"

definition colon :: "buffer \<Rightarrow> buffer" where
  "colon b = (write_strs b ['':''])\<lparr>delim := []\<rparr>"

definition close_punct :: "buffer \<Rightarrow> string \<Rightarrow> buffer" where
  "close_punct b punct = (write_strs b [punct])\<lparr>delim := comma\<rparr>"

subsection \<open>Numbers and the timestamp\<close>

text \<open>
  \<open>strconv.AppendInt(dst, i, 10)\<close> and \<open>strconv.AppendUint(dst, u, 10)\<close> of the Go
  library append the decimal digits, most significant first, with a leading \<open>-\<close>
  for a negative number.
\<close>

fun digits10 :: "nat \<Rightarrow> string" where
  "digits10 n =
     (if n < 10 then [char_of (48 + n)]
      else digits10 (n div 10) @ [char_of (48 + n mod 10)])"

declare digits10.simps [simp del]

definition format_int :: "int \<Rightarrow> string" where
  "format_int i = (if i < 0 then CHR ''-'' # digits10 (nat (- i)) else digits10 (nat i))"

text \<open>Go's \<open>/\<close> and \<open>%\<close> on \<open>int\<close> truncate towards zero.\<close>

definition go_quot :: "int \<Rightarrow> int \<Rightarrow> int" where
  "go_quot a b = sgn a * sgn b * (\<bar>a\<bar> div \<bar>b\<bar>)"

definition go_rem :: "int \<Rightarrow> int \<Rightarrow> int" where
  "go_rem a b = a - b * go_quot a b"

text \<open>
  A run-time panic of Go, with the buffer as it stood when the panic was raised:
  \<open>slice bounds out of range [:n] with capacity c\<close>.
\<close>

datatype panic = SliceBounds nat nat

type_synonym result = "(panic \<times> buffer) + buffer"

definition and_then :: "result \<Rightarrow> (buffer \<Rightarrow> result) \<Rightarrow> result" where
  "and_then r f = (case r of Inl e \<Rightarrow> Inl e | Inr b \<Rightarrow> f b)"

text \<open>\<open>func (b *buffer) int2(val int)\<close>: the reslice \<open>b.buf[0:2+l]\<close> panics beyond the capacity.\<close>

definition int2 :: "buffer \<Rightarrow> int \<Rightarrow> result" where
  "int2 b val =
     (let l = length (buf b) in
      if bcap b < 2 + l then Inl (SliceBounds (2 + l) (bcap b), b)
      else Inr (b\<lparr>buf := buf b @ [char_of (48 + go_quot val 10), char_of (48 + go_rem val 10)]\<rparr>))"

text \<open>
  \<open>func (b *buffer) int(val int, digits int)\<close> (\<open>int\<close> is a HOL constant). After the
  reslice, \<open>copy\<close> moves the \<open>l\<close> digits to the end and the loop fills the gap with zeros.
\<close>

definition int_pad :: "growth \<Rightarrow> buffer \<Rightarrow> int \<Rightarrow> nat \<Rightarrow> result" where
  "int_pad g b val digits =
     (let bef = length (buf b);
          b1 = go_append g b (format_int val);
          aft = length (buf b1);
          l = aft - bef
      in if l < digits
         then (if bcap b1 < bef + digits then Inl (SliceBounds (bef + digits) (bcap b1), b1)
               else Inr (b1\<lparr>buf := take bef (buf b1) @ replicate (digits - l) CHR ''0''
                                      @ drop bef (buf b1)\<rparr>))
         else Inr b1)"

text \<open>The value of \<open>time.Now().In(time.UTC)\<close>, by the accessors the source reads.\<close>

record gotime =
  Year :: int
  Month :: int
  Day :: int
  Hour :: int
  Minute :: int
  Second :: int
  Nanosecond :: int

text \<open>\<open>func (b *buffer) timestamp()\<close>, with the clock's answer as a parameter.\<close>

definition timestamp :: "growth \<Rightarrow> buffer \<Rightarrow> gotime \<Rightarrow> result" where
  "timestamp g b now =
     (let b0 = (if bcap b < length (buf b) + 22 then lock b else b);
          b1 = write_strs b0 [[CHR 0x22]];
          b2 = go_append g b1 (format_int (Year now));
          b3 = write_strs b2 [''-'']
      in and_then (int2 b3 (Month now)) (\<lambda>b4.
         and_then (int2 (write_strs b4 [''-'']) (Day now)) (\<lambda>b5.
         and_then (int2 (write_strs b5 ['' '']) (Hour now)) (\<lambda>b6.
         and_then (int2 (write_strs b6 ['':'']) (Minute now)) (\<lambda>b7.
         and_then (int2 (write_strs b7 ['':'']) (Second now)) (\<lambda>b8.
         and_then (int_pad g (write_strs b8 [''.'']) (go_quot (Nanosecond now) 1000000) 3) (\<lambda>b9.
         Inr ((write_strs b9 [[CHR ''Z'', CHR 0x22]])\<lparr>delim := comma\<rparr>))))))))"


subsection \<open>Values\<close>

text \<open>
  The dynamic types the type switch of \<open>scalar\<close> tells apart. The integer cases
  all widen to 64 bits before formatting, so \<open>VInt\<close> holds the \<open>int64\<close> and
  \<open>VUint\<close> the \<open>uint64\<close>. A float is held as the text that
  \<open>strconv.AppendFloat(_, v, 'g', -1, bits)\<close> makes of it. \<open>AMap\<close> is a pointer
  (\<open>None\<close> is nil) to keys with their values, in order. A \<open>map[string]interface{}\<close>
  is the list of its entries, each key once. An \<open>error\<close> is its message, and any
  other value is what \<open>json.Marshal\<close> returns for it: the error text or the bytes.
\<close>

datatype val =
    VNil
  | VString string
  | VBytes string
  | VInt "64 word"
  | VUint "64 word"
  | VFloat32 string
  | VFloat64 string
  | VBool bool
  | VStrings "string list"
  | VAList "val list"
  | VRawMap "val list"
  | VAMap "(string \<times> val) list option"
  | VMap "(string \<times> val) list"
  | VError string
  | VOther "string + string"

text \<open>A size of values that counts the strings of a \<open>[]string\<close>.\<close>

fun vsz :: "val \<Rightarrow> nat" where
  "vsz (VStrings ss) = 1 + length ss"
| "vsz (VAList vs) = 1 + sum_list (map (\<lambda>v. vsz v + 1) vs)"
| "vsz (VRawMap vs) = 1 + sum_list (map (\<lambda>v. vsz v + 1) vs)"
| "vsz (VAMap None) = 1"
| "vsz (VAMap (Some kvs)) = 1 + sum_list (map (\<lambda>p. vsz (snd p) + 1) kvs)"
| "vsz (VMap kvs) = 1 + sum_list (map (\<lambda>p. vsz (snd p) + 1) kvs)"
| "vsz _ = 0"

text \<open>Measures for the termination of the encoder below.\<close>

definition lsz :: "val list \<Rightarrow> nat" where
  "lsz vs = sum_list (map (\<lambda>v. vsz v + 1) vs)"

definition psz :: "(string \<times> val) list \<Rightarrow> nat" where
  "psz kvs = sum_list (map (\<lambda>p. vsz (snd p) + 1) kvs)"

text \<open>The first \<open>switch\<close> of \<open>scalar\<close>: a nil or empty \<open>AMap\<close>.\<close>

fun is_empty_AMap :: "val \<Rightarrow> bool" where
  "is_empty_AMap (VAMap None) = True"
| "is_empty_AMap (VAMap (Some kvs)) = (0 = length kvs)"
| "is_empty_AMap _ = False"

definition scalar_begin :: "buffer \<Rightarrow> buffer" where
  "scalar_begin b =
     (let b1 = write_strs b [delim b];
          b2 = b1\<lparr>delim := []\<rparr>
      in if bcap b2 < length (buf b2) + 64 then lock b2 else b2)"

text \<open>
  \<open>scalar\<close>, \<open>pair\<close> and \<open>pairs\<close>, with their \<open>range\<close> loops. The helper \<open>S\<close>
  (any value to a string) is defined outside the file and is a parameter here.
  \<open>scalar_switch\<close> is the second type switch of \<open>scalar\<close>.
\<close>

function scalar :: "(val \<Rightarrow> string) \<Rightarrow> growth \<Rightarrow> buffer \<Rightarrow> val \<Rightarrow> buffer"
  and scalar_switch :: "(val \<Rightarrow> string) \<Rightarrow> growth \<Rightarrow> buffer \<Rightarrow> val \<Rightarrow> buffer"
  and strings_loop :: "(val \<Rightarrow> string) \<Rightarrow> growth \<Rightarrow> buffer \<Rightarrow> string list \<Rightarrow> buffer"
  and alist_loop :: "(val \<Rightarrow> string) \<Rightarrow> growth \<Rightarrow> buffer \<Rightarrow> val list \<Rightarrow> buffer"
  and rawmap_loop :: "(val \<Rightarrow> string) \<Rightarrow> growth \<Rightarrow> buffer \<Rightarrow> nat \<Rightarrow> val list \<Rightarrow> buffer"
  and pair :: "(val \<Rightarrow> string) \<Rightarrow> growth \<Rightarrow> buffer \<Rightarrow> string \<Rightarrow> val \<Rightarrow> buffer"
  and pairs_loop :: "(val \<Rightarrow> string) \<Rightarrow> growth \<Rightarrow> buffer \<Rightarrow> (string \<times> val) list \<Rightarrow> buffer"
  and pairs :: "(val \<Rightarrow> string) \<Rightarrow> growth \<Rightarrow> buffer \<Rightarrow> (string \<times> val) list option \<Rightarrow> buffer"
where
  "scalar S g b v =
     (if is_empty_AMap v then b
      else (scalar_switch S g (scalar_begin b) v)\<lparr>delim := comma\<rparr>)"
| "scalar_switch S g b VNil = write_strs b [''null'']"
| "scalar_switch S g b (VString s) = quote b s"
| "scalar_switch S g b (VBytes s) = quoteBytes g b s"
| "scalar_switch S g b (VInt i) = go_append g b (format_int (sint i))"
| "scalar_switch S g b (VUint u) = go_append g b (digits10 (unat u))"
| "scalar_switch S g b (VFloat32 t) = go_append g b t"
| "scalar_switch S g b (VFloat64 t) = go_append g b t"
| "scalar_switch S g b (VBool v) = (if v then write_strs b [''true''] else write_strs b [''false''])"
| "scalar_switch S g b (VStrings ss) =
     close_punct (strings_loop S g (open_punct b ''['') ss) '']''"
| "scalar_switch S g b (VAList vs) =
     close_punct (alist_loop S g (open_punct b ''['') vs) '']''"
| "scalar_switch S g b (VRawMap vs) =
     (let b1 = rawmap_loop S g (open_punct b ''{'') 0 vs;
          b2 = (if 1 = 1 AND length vs then scalar S g b1 VNil else b1)
      in close_punct b2 ''}'')"
| "scalar_switch S g b (VAMap m) = close_punct (pairs S g (open_punct b ''{'') m) ''}''"
| "scalar_switch S g b (VMap kvs) =
     close_punct (pairs_loop S g (open_punct b ''{'') (sort_key fst kvs)) ''}''"
| "scalar_switch S g b (VError msg) = quote b msg"
| "scalar_switch S g b (VOther r) =
     (case r of Inl err \<Rightarrow> quote b (''! '' @ err) | Inr bytes \<Rightarrow> writeBytes g b bytes)"
| "strings_loop S g b [] = b"
| "strings_loop S g b (s # ss) = strings_loop S g (scalar S g b (VString s)) ss"
| "alist_loop S g b [] = b"
| "alist_loop S g b (v # vs) = alist_loop S g (scalar S g b v) vs"
| "rawmap_loop S g b i [] = b"
| "rawmap_loop S g b i (elt # elts) =
     rawmap_loop S g
       (if 0 = 1 AND i then colon (quote b (S elt)) else scalar S g b elt) (i + 1) elts"
| "pair S g b k v = scalar S g (colon (quote b k)) v"
| "pairs_loop S g b [] = b"
| "pairs_loop S g b (kv # kvs) = pairs_loop S g (pair S g b (fst kv) (snd kv)) kvs"
| "pairs S g b None = b"
| "pairs S g b (Some kvs) = pairs_loop S g b kvs"
  by pat_completeness auto

termination
proof -
  have ins: "sum_list (map f (insort_key fst x xs)) = f x + sum_list (map f xs)"
    for f :: "string \<times> val \<Rightarrow> nat" and x xs
    by (induction xs) auto
  have srt: "sum_list (map f (sort_key fst xs)) = sum_list (map f xs)"
    for f :: "string \<times> val \<Rightarrow> nat" and xs
    by (induction xs) (auto simp: ins)
  show ?thesis
    by (relation "measure (\<lambda>x. case x of
        Inl (Inl (Inl (S, g, b, v))) \<Rightarrow> 3 * vsz v + 2
      | Inl (Inl (Inr (S, g, b, v))) \<Rightarrow> 3 * vsz v + 1
      | Inl (Inr (Inl (S, g, b, ss))) \<Rightarrow> 3 * length ss + 3
      | Inl (Inr (Inr (S, g, b, vs))) \<Rightarrow> 3 * lsz vs
      | Inr (Inl (Inl (S, g, b, i, vs))) \<Rightarrow> 3 * lsz vs
      | Inr (Inl (Inr (S, g, b, k, v))) \<Rightarrow> 3 * vsz v + 3
      | Inr (Inr (Inl (S, g, b, kvs))) \<Rightarrow> 3 * psz kvs + 1
      | Inr (Inr (Inr (S, g, b, m))) \<Rightarrow>
          3 * (case m of None \<Rightarrow> 0 | Some kvs \<Rightarrow> psz kvs) + 2)")
       (auto simp: lsz_def psz_def srt split: option.splits)
qed

declare scalar.simps [simp del] pair.simps [simp del]

subsection \<open>Composing a line\<close>

text \<open>
  A line is composed by calling methods of the buffer one after the other, and released
  by \<open>unlock\<close>. A panic ends the composition, the buffer staying as the panic left it.
\<close>

datatype op =
    OpWrite "string list"
  | OpWriteBytes string
  | OpQuote string
  | OpQuoteBytes string
  | OpEscape string
  | OpEscapeBytes string
  | OpInt2 int
  | OpInt int nat
  | OpTimestamp gotime
  | OpOpen string
  | OpColon
  | OpClose string
  | OpPair string val
  | OpPairs "(string \<times> val) list option"
  | OpScalar val

fun step :: "(val \<Rightarrow> string) \<Rightarrow> growth \<Rightarrow> buffer \<Rightarrow> op \<Rightarrow> result" where
  "step S g b (OpWrite strs) = Inr (write_strs b strs)"
| "step S g b (OpWriteBytes s) = Inr (writeBytes g b s)"
| "step S g b (OpQuote s) = Inr (quote b s)"
| "step S g b (OpQuoteBytes s) = Inr (quoteBytes g b s)"
| "step S g b (OpEscape s) = Inr (escape b s)"
| "step S g b (OpEscapeBytes s) = Inr (escapeBytes g b s)"
| "step S g b (OpInt2 v) = int2 b v"
| "step S g b (OpInt v digits) = int_pad g b v digits"
| "step S g b (OpTimestamp now) = timestamp g b now"
| "step S g b (OpOpen punct) = Inr (open_punct b punct)"
| "step S g b OpColon = Inr (colon b)"
| "step S g b (OpClose punct) = Inr (close_punct b punct)"
| "step S g b (OpPair k v) = Inr (pair S g b k v)"
| "step S g b (OpPairs m) = Inr (pairs S g b m)"
| "step S g b (OpScalar v) = Inr (scalar S g b v)"

fun compose :: "(val \<Rightarrow> string) \<Rightarrow> growth \<Rightarrow> buffer \<Rightarrow> op list \<Rightarrow> result" where
  "compose S g b [] = Inr b"
| "compose S g b (x # xs) =
     (case step S g b x of Inl e \<Rightarrow> Inl e | Inr b' \<Rightarrow> compose S g b' xs)"

definition final_buffer :: "result \<Rightarrow> buffer" where
  "final_buffer r = (case r of Inl e \<Rightarrow> snd e | Inr b \<Rightarrow> b)"

text \<open>
  The operations that put bytes on the line through \<open>write\<close> and \<open>writeBytes\<close>
  alone, and so ask for no headroom beyond the bytes themselves.
\<close>

fun plain_op :: "op \<Rightarrow> bool" where
  "plain_op (OpWrite strs) = True"
| "plain_op (OpWriteBytes s) = True"
| "plain_op (OpQuote s) = True"
| "plain_op (OpQuoteBytes s) = True"
| "plain_op (OpEscape s) = True"
| "plain_op (OpEscapeBytes s) = True"
| "plain_op (OpOpen punct) = True"
| "plain_op OpColon = True"
| "plain_op (OpClose punct) = True"
| "plain_op x = False"

subsection \<open>What has been emitted, and the shape of a trace\<close>

text \<open>The bytes the stream has received, in order.\<close>

fun written :: "event list \<Rightarrow> string" where
  "written [] = []"
| "written (WWrite s # es) = s @ written es"
| "written (MuLock # es) = written es"
| "written (MuUnlock # es) = written es"

text \<open>The line so far: what the stream has received and what is still buffered.\<close>

definition emitted :: "buffer \<Rightarrow> string" where
  "emitted b = written (trace b) @ buf b"

fun all_writes :: "event list \<Rightarrow> bool" where
  "all_writes [] = True"
| "all_writes (WWrite s # es) = all_writes es"
| "all_writes (MuLock # es) = False"
| "all_writes (MuUnlock # es) = False"

text \<open>
  The trace of a line that has flushed early: the mutex is taken first, a write follows
  at once, and only writes follow.
\<close>

fun locked_trace :: "event list \<Rightarrow> bool" where
  "locked_trace (MuLock # WWrite w # es) = all_writes es"
| "locked_trace es = False"

definition trace_ok :: "buffer \<Rightarrow> bool" where
  "trace_ok b = (if locked b then locked_trace (trace b) else trace b = [])"

definition buffer_ok :: "buffer \<Rightarrow> bool" where
  "buffer_ok b = (scratch_cap \<le> bcap b \<and> length (buf b) \<le> bcap b \<and> trace_ok b)"

text \<open>
  How an operation may change a well-formed buffer: it stays well-formed, the line
  only grows, the mutex once taken stays taken, and it is taken only when the line
  with \<open>h\<close> bytes of headroom no longer fits the scratch region.
\<close>

definition extends :: "nat \<Rightarrow> buffer \<Rightarrow> buffer \<Rightarrow> bool" where
  "extends h b b' =
     (buffer_ok b \<longrightarrow>
        buffer_ok b' \<and> length (emitted b) \<le> length (emitted b') \<and>
        (locked b \<longrightarrow> locked b') \<and>
        (locked b' \<longrightarrow> locked b \<or> scratch_cap < length (emitted b') + h))"

subsection \<open>The escaper, as the specification words it\<close>

text \<open>What the loop of \<open>escape\<close> makes of one byte: itself, or \<open>next\<close>.\<close>

definition escaped :: "string \<Rightarrow> string" where
  "escaped s = concat (map (\<lambda>c. if noEsc c then [c] else escape_next c) s)"

definition hexdigit :: "nat \<Rightarrow> char" where
  "hexdigit n = (if n < 10 then char_of (48 + n) else char_of (87 + n))"

text \<open>
  The specification's table: the two-character escapes, \<open>\u00XX\<close> with two
  lowercase hexadecimal digits for the other bytes below 0x20, every other byte as it is.
\<close>

definition spec_escape_byte :: "char \<Rightarrow> string" where
  "spec_escape_byte c =
     (if c = CHR 0x22 then [CHR 0x5C, CHR 0x22]
      else if c = CHR 0x5C then [CHR 0x5C, CHR 0x5C]
      else if c = CHR 0x08 then [CHR 0x5C, CHR ''b'']
      else if c = CHR 0x0C then [CHR 0x5C, CHR ''f'']
      else if c = CHR 0x0A then [CHR 0x5C, CHR ''n'']
      else if c = CHR 0x0D then [CHR 0x5C, CHR ''r'']
      else if c = CHR 0x09 then [CHR 0x5C, CHR ''t'']
      else if (of_char c :: nat) < 32
      then [CHR 0x5C, CHR ''u'', CHR ''0'', CHR ''0'',
            hexdigit ((of_char c :: nat) div 16), hexdigit ((of_char c :: nat) mod 16)]
      else [c])"

text \<open>
  Well-formed UTF-8 (the Unicode standard, table 3-7; the ranges \<open>utf8.DecodeRune\<close>
  of Go accepts): what a lead byte asks for, as the number of continuation bytes and
  the range of the first of them; none for a byte that cannot lead.
\<close>

definition lead_info :: "nat \<Rightarrow> nat \<times> nat \<times> nat" where
  "lead_info a =
     (if a < 194 then (0, 0, 0)
      else if a \<le> 223 then (1, 128, 191)
      else if a = 224 then (2, 160, 191)
      else if a \<le> 236 then (2, 128, 191)
      else if a = 237 then (2, 128, 159)
      else if a \<le> 239 then (2, 128, 191)
      else if a = 240 then (3, 144, 191)
      else if a \<le> 243 then (3, 128, 191)
      else if a = 244 then (3, 128, 143)
      else (0, 0, 0))"

definition cont_byte :: "char \<Rightarrow> bool" where
  "cont_byte x = (128 \<le> (of_char x :: nat) \<and> (of_char x :: nat) \<le> 191)"

text \<open>\<open>k\<close> continuation bytes lead \<open>r\<close>, the first of them within \<open>lo\<close> to \<open>hi\<close>.\<close>

definition seq_ok :: "nat \<Rightarrow> nat \<Rightarrow> nat \<Rightarrow> string \<Rightarrow> bool" where
  "seq_ok k lo hi r =
     (case r of
        [] \<Rightarrow> False
      | x # _ \<Rightarrow> 0 < k \<and> k \<le> length r \<and> lo \<le> (of_char x :: nat) \<and> (of_char x :: nat) \<le> hi
                 \<and> list_all cont_byte (take k r))"

text \<open>
  The length of the well-formed sequence at the head of a string: 1 for an ASCII byte,
  0 when the head is ill-formed (or the string empty).
\<close>

definition utf8_len :: "string \<Rightarrow> nat" where
  "utf8_len s =
     (case s of
        [] \<Rightarrow> 0
      | c # r \<Rightarrow>
          if (of_char c :: nat) < 128 then 1
          else (case lead_info (of_char c) of
                  (k, lo, hi) \<Rightarrow> if seq_ok k lo hi r then k + 1 else 0))"

function valid_utf8 :: "string \<Rightarrow> bool" where
  "valid_utf8 s =
     (if s = [] then True
      else if utf8_len s = 0 then False
      else valid_utf8 (drop (utf8_len s) s))"
  by pat_completeness auto
termination
  by (relation "measure length") auto

declare valid_utf8.simps [simp del]

text \<open>
  The un-escaping of the body of a JSON string (RFC 8259), on bytes. A backslash
  introduces one of the eight two-character escapes or \<open>\uXXXX\<close>, whose code point
  comes out in UTF-8; a high surrogate with a low one after it makes one code point,
  any other surrogate comes out as U+FFFD. An unescaped quote or control byte is not
  allowed. Every other byte leads a UTF-8 sequence, which is copied when it is
  well-formed; a byte that is not is replaced by U+FFFD, as \<open>encoding/json\<close> of Go
  does (a stricter parser refuses the string).
\<close>

definition hexval :: "char \<Rightarrow> nat option" where
  "hexval c =
     (let n = (of_char c :: nat) in
      if 48 \<le> n \<and> n \<le> 57 then Some (n - 48)
      else if 97 \<le> n \<and> n \<le> 102 then Some (n - 87)
      else if 65 \<le> n \<and> n \<le> 70 then Some (n - 55)
      else None)"

definition hex4 :: "string \<Rightarrow> nat option" where
  "hex4 s =
     (case s of
        h1 # h2 # h3 # h4 # _ \<Rightarrow>
          (case (hexval h1, hexval h2, hexval h3, hexval h4) of
             (Some x1, Some x2, Some x3, Some x4) \<Rightarrow> Some (((x1 * 16 + x2) * 16 + x3) * 16 + x4)
           | _ \<Rightarrow> None)
      | _ \<Rightarrow> None)"

definition getu4 :: "string \<Rightarrow> nat option" where
  "getu4 s =
     (case s of
        b # u # rest \<Rightarrow> if b = CHR 0x5C \<and> u = CHR ''u'' then hex4 rest else None
      | _ \<Rightarrow> None)"

definition utf8_enc :: "nat \<Rightarrow> string" where
  "utf8_enc n =
     (if n < 128 then [char_of n]
      else if n < 2048 then [char_of (192 + n div 64), char_of (128 + n mod 64)]
      else if n < 65536
      then [char_of (224 + n div 4096), char_of (128 + (n div 64) mod 64),
            char_of (128 + n mod 64)]
      else [char_of (240 + n div 262144), char_of (128 + (n div 4096) mod 64),
            char_of (128 + (n div 64) mod 64), char_of (128 + n mod 64)])"

definition replacement_char :: string where
  "replacement_char = [CHR 0xEF, CHR 0xBF, CHR 0xBD]"

definition unescape_simple :: "char \<Rightarrow> char option" where
  "unescape_simple e =
     (if e = CHR 0x22 then Some (CHR 0x22)
      else if e = CHR 0x5C then Some (CHR 0x5C)
      else if e = CHR ''/'' then Some (CHR ''/'')
      else if e = CHR ''b'' then Some (CHR 0x08)
      else if e = CHR ''f'' then Some (CHR 0x0C)
      else if e = CHR ''n'' then Some (CHR 0x0A)
      else if e = CHR ''r'' then Some (CHR 0x0D)
      else if e = CHR ''t'' then Some (CHR 0x09)
      else None)"

function json_unescape :: "string \<Rightarrow> string option" where
  "json_unescape [] = Some []"
| "json_unescape (c # r) =
     (if c = CHR 0x5C
      then (case r of
              [] \<Rightarrow> None
            | e # r1 \<Rightarrow>
                if e = CHR ''u''
                then (case hex4 r1 of
                        None \<Rightarrow> None
                      | Some n \<Rightarrow>
                          if 55296 \<le> n \<and> n < 57344
                          then (case getu4 (drop 4 r1) of
                                  None \<Rightarrow>
                                    map_option ((@) replacement_char) (json_unescape (drop 4 r1))
                                | Some m \<Rightarrow>
                                    if n < 56320 \<and> 56320 \<le> m \<and> m < 57344
                                    then map_option
                                           ((@) (utf8_enc (65536 + (n - 55296) * 1024 + (m - 56320))))
                                           (json_unescape (drop 10 r1))
                                    else map_option ((@) replacement_char)
                                           (json_unescape (drop 4 r1)))
                          else map_option ((@) (utf8_enc n)) (json_unescape (drop 4 r1)))
                else (case unescape_simple e of
                        None \<Rightarrow> None
                      | Some d \<Rightarrow> map_option ((#) d) (json_unescape r1)))
      else if c = CHR 0x22 \<or> (of_char c :: nat) < 32 then None
      else if utf8_len (c # r) = 0
      then map_option ((@) replacement_char) (json_unescape r)
      else map_option ((@) (c # take (utf8_len (c # r) - 1) r))
             (json_unescape (drop (utf8_len (c # r) - 1) r)))"
  by pat_completeness auto
termination
  by (relation "measure length") auto

subsection \<open>The flat alternating list, as the specification words it\<close>


subsection \<open>The timestamp, as the specification words it\<close>

text \<open>
  A quoted string: the year in its natural width, month, day, hour, minute and second
  in two digits each, the milliseconds in three, zero-padded, and a \<open>Z\<close>.
\<close>

definition two_digits :: "int \<Rightarrow> string" where
  "two_digits v = [char_of (48 + v div 10), char_of (48 + v mod 10)]"

definition zero_pad :: "nat \<Rightarrow> string \<Rightarrow> string" where
  "zero_pad n s = replicate (n - length s) CHR ''0'' @ s"

definition spec_timestamp :: "gotime \<Rightarrow> string" where
  "spec_timestamp now =
     ''\"'' @ format_int (Year now) @ ''-'' @ two_digits (Month now) @ ''-''
       @ two_digits (Day now) @ '' '' @ two_digits (Hour now) @ '':''
       @ two_digits (Minute now) @ '':'' @ two_digits (Second now) @ ''.''
       @ zero_pad 3 (format_int (Nanosecond now div 1000000)) @ ''Z\"''"

section \<open>What each operation adds to the line\<close>

lemma written_append [simp]: "written (es @ fs) = written es @ written fs"
  by (induction es rule: written.induct) auto

lemma lock_fields [simp]:
  "delim (lock b) = delim b"
  "locked (lock b) = True"
  "emitted (lock b) = emitted b"
  by (simp_all add: lock_def Let_def emitted_def)

lemma go_append_fields [simp]:
  "delim (go_append g b s) = delim b"
  "locked (go_append g b s) = locked b"
  "trace (go_append g b s) = trace b"
  "buf (go_append g b s) = buf b @ s"
  "emitted (go_append g b s) = emitted b @ s"
  by (simp_all add: go_append_def Let_def emitted_def)

lemma write1_fields [simp]:
  "delim (write1 b s) = delim b"
  "emitted (write1 b s) = emitted b @ s"
  by (simp_all add: write1_def lock_def Let_def emitted_def)

lemma write_strs_delim [simp]: "delim (write_strs b ss) = delim b"
  by (induction ss arbitrary: b) simp_all

lemma write_strs_emitted [simp]: "emitted (write_strs b ss) = emitted b @ concat ss"
  by (induction ss arbitrary: b) simp_all

lemma writeBytes_fields [simp]:
  "delim (writeBytes g b s) = delim b"
  "emitted (writeBytes g b s) = emitted b @ s"
  by (simp_all add: writeBytes_def lock_def go_append_def Let_def emitted_def)

lemma delim_upd_emitted [simp]: "emitted (b\<lparr>delim := d\<rparr>) = emitted b"
  by (simp add: emitted_def)

lemma slice_Suc: "beg \<le> i \<Longrightarrow> i < length s \<Longrightarrow> slice s beg (Suc i) = slice s beg i @ [s ! i]"
  by (simp add: slice_def Suc_diff_le take_Suc_conv_app_nth)

lemma slice_same [simp]: "slice s i i = []"
  by (simp add: slice_def)

lemma slice_end: "slice s beg (length s) = drop beg s"
  by (simp add: slice_def)

lemma escaped_Nil [simp]: "escaped [] = []"
  by (simp add: escaped_def)

lemma escaped_Cons:
  "escaped (c # s) = (if noEsc c then [c] else escape_next c) @ escaped s"
  by (simp add: escaped_def)

lemma escaped_append: "escaped (s @ t) = escaped s @ escaped t"
  by (simp add: escaped_def)

lemma escape_loop_delim [simp]: "delim (escape_loop b s beg i) = delim b"
  by (induction b s beg i rule: escape_loop.induct)
     (subst escape_loop.simps, simp add: Let_def)

lemma escape_loop_emitted:
  "beg \<le> i \<Longrightarrow> i \<le> length s \<Longrightarrow>
   emitted (escape_loop b s beg i) = emitted b @ slice s beg i @ escaped (drop i s)"
proof (induction b s beg i rule: escape_loop.induct)
  case (1 b s beg i)
  show ?case
  proof (cases "i < length s")
    case False
    with "1.prems" have "i = length s" by simp
    then show ?thesis
      by (subst escape_loop.simps) (simp add: slice_end)
  next
    case True
    then have d: "drop i s = s ! i # drop (Suc i) s"
      by (simp add: Cons_nth_drop_Suc)
    show ?thesis
    proof (cases "noEsc (s ! i)")
      case True
      with \<open>i < length s\<close> "1.prems" "1.IH"(1) [OF \<open>i < length s\<close> refl True]
      show ?thesis
        by (subst escape_loop.simps) (simp add: d escaped_Cons slice_Suc)
    next
      case False
      with \<open>i < length s\<close> "1.prems" "1.IH"(2) [OF \<open>i < length s\<close> refl False refl refl refl]
      show ?thesis
        by (subst escape_loop.simps) (simp add: d escaped_Cons Let_def)
    qed
  qed
qed

lemma escape_fields [simp]:
  "delim (escape b s) = delim b"
  "emitted (escape b s) = emitted b @ escaped s"
  by (simp_all add: escape_def escape_loop_emitted)

lemma escapeBytes_loop_delim [simp]: "delim (escapeBytes_loop g b s beg i) = delim b"
  by (induction g b s beg i rule: escapeBytes_loop.induct)
     (subst escapeBytes_loop.simps, simp add: Let_def)

lemma escapeBytes_loop_emitted:
  "beg \<le> i \<Longrightarrow> i \<le> length s \<Longrightarrow>
   emitted (escapeBytes_loop g b s beg i) = emitted b @ slice s beg i @ escaped (drop i s)"
proof (induction g b s beg i rule: escapeBytes_loop.induct)
  case (1 g b s beg i)
  show ?case
  proof (cases "i < length s")
    case False
    with "1.prems" have "i = length s" by simp
    then show ?thesis
      by (subst escapeBytes_loop.simps) (simp add: slice_end)
  next
    case True
    then have d: "drop i s = s ! i # drop (Suc i) s"
      by (simp add: Cons_nth_drop_Suc)
    show ?thesis
    proof (cases "noEsc (s ! i)")
      case True
      with \<open>i < length s\<close> "1.prems" "1.IH"(1) [OF \<open>i < length s\<close> refl True]
      show ?thesis
        by (subst escapeBytes_loop.simps) (simp add: d escaped_Cons slice_Suc)
    next
      case False
      with \<open>i < length s\<close> "1.prems" "1.IH"(2) [OF \<open>i < length s\<close> refl False refl refl refl]
      show ?thesis
        by (subst escapeBytes_loop.simps) (simp add: d escaped_Cons Let_def)
    qed
  qed
qed

lemma escapeBytes_fields [simp]:
  "delim (escapeBytes g b s) = delim b"
  "emitted (escapeBytes g b s) = emitted b @ escaped s"
  by (simp_all add: escapeBytes_def escapeBytes_loop_emitted)

lemma quote_fields [simp]:
  "delim (quote b s) = comma"
  "emitted (quote b s) = emitted b @ delim b @ [CHR 0x22] @ escaped s @ [CHR 0x22]"
  by (simp_all add: quote_def Let_def)

lemma quoteBytes_fields [simp]:
  "delim (quoteBytes g b s) = delim b"
  "emitted (quoteBytes g b s) = emitted b @ delim b @ [CHR 0x22] @ escaped s @ [CHR 0x22]"
  by (simp_all add: quoteBytes_def Let_def)

lemma punct_fields [simp]:
  "delim (open_punct b p) = []"
  "emitted (open_punct b p) = emitted b @ delim b @ p"
  "delim (colon b) = []"
  "emitted (colon b) = emitted b @ '':''"
  "delim (close_punct b p) = comma"
  "emitted (close_punct b p) = emitted b @ p"
  by (simp_all add: open_punct_def colon_def close_punct_def)

lemma scalar_begin_fields [simp]:
  "delim (scalar_begin b) = []"
  "emitted (scalar_begin b) = emitted b @ delim b"
  by (simp_all add: scalar_begin_def Let_def)

section \<open>The escaper\<close>

lemma char_of_nat_eq: "(char_of (n :: nat) = c) = (n mod 256 = of_char c)"
  by (simp add: char_of_eq_iff take_bit_eq_mod)

lemma char_of_nat_eq': "(c = char_of (n :: nat)) = (n mod 256 = of_char c)"
  using char_of_nat_eq [of n c] by auto

lemma hexDigits_nth: "k < 16 \<Longrightarrow> hexDigits ! k = hexdigit k"
proof -
  assume "k < 16"
  then have "k = 0 \<or> k = 1 \<or> k = 2 \<or> k = 3 \<or> k = 4 \<or> k = 5 \<or> k = 6 \<or> k = 7
      \<or> k = 8 \<or> k = 9 \<or> k = 10 \<or> k = 11 \<or> k = 12 \<or> k = 13 \<or> k = 14 \<or> k = 15"
    by arith
  then show ?thesis
    by (elim disjE) (simp_all add: hexDigits_def hexdigit_def char_of_nat_eq')
qed

lemma hex_fill_5:
  "hex_fill [a0, a1, a2, a3, a4, a5] (w :: 8 word) 5 =
     [a0, a1, hexDigits ! 0, hexDigits ! 0,
      hexDigits ! unat (drop_bit 4 w AND 0xF), hexDigits ! unat (w AND 0xF)]"
  by (simp add: hex_fill.simps [of _ _ 5] hex_fill.simps [of _ _ 4] hex_fill.simps [of _ _ 3]
      hex_fill.simps [of _ _ 2] hex_fill.simps [of _ _ "Suc 0"])

lemma unat_of_char8: "unat (of_char c :: 8 word) = (of_char c :: nat)"
proof -
  have "unat (of_nat (of_char c) :: 8 word) = (of_char c :: nat)"
    by (simp add: unat_of_nat)
  then show ?thesis by (simp only: of_nat_of_char)
qed

lemma nat_and_15: "(n :: nat) AND 15 = n mod 16"
proof -
  have "(15 :: nat) = mask 4" by (simp add: mask_eq_exp_minus_1)
  then have "n AND 15 = take_bit 4 n" by (simp only: take_bit_eq_mask)
  then show ?thesis by (simp add: take_bit_eq_mod)
qed

lemma low_nibble: "unat ((w :: 8 word) AND 0xF) = unat w mod 16"
  by (simp add: unsigned_and_eq nat_and_15)

lemma high_nibble: "unat (drop_bit 4 (w :: 8 word) AND 0xF) = unat w div 16"
proof -
  have "unat w < 256" using unsigned_less [of w, where 'a = nat] by simp
  then have "unat w div 16 < 16" by simp
  then show ?thesis
    by (simp add: low_nibble unat_drop_bit_eq drop_bit_eq_div unat_div)
qed

lemma escape_next_hex:
  assumes "(of_char c :: nat) < 32"
  shows "hex_fill [CHR 0x5C, CHR ''u'', CHR ''0'', CHR ''0'', CHR ''0'', CHR ''0''] (of_char c) 5 =
         [CHR 0x5C, CHR ''u'', CHR ''0'', CHR ''0'',
          hexdigit ((of_char c :: nat) div 16), hexdigit ((of_char c :: nat) mod 16)]"
proof -
  have "(of_char c :: nat) div 16 < 16" "(of_char c :: nat) mod 16 < 16"
    using assms by simp_all
  moreover have "unat (drop_bit 4 (of_char c :: 8 word) AND 0xF) = (of_char c :: nat) div 16"
    by (simp only: high_nibble unat_of_char8)
  moreover have "unat ((of_char c :: 8 word) AND 0xF) = (of_char c :: nat) mod 16"
    by (simp only: low_nibble unat_of_char8)
  moreover have "hexDigits ! 0 = CHR ''0''"
    by (simp add: hexDigits_def)
  ultimately show ?thesis
    by (simp only: hex_fill_5 hexDigits_nth)
qed

lemma escape_byte_spec: "(if noEsc c then [c] else escape_next c) = spec_escape_byte c"
proof (cases "(of_char c :: nat) < 32")
  case True
  then show ?thesis
    by (auto simp: noEsc_def escape_next_def spec_escape_byte_def escape_next_hex)
next
  case False
  then show ?thesis
    by (auto simp: noEsc_def escape_next_def spec_escape_byte_def)
qed

lemma escaped_spec: "escaped s = concat (map spec_escape_byte s)"
  by (simp add: escaped_def escape_byte_spec)

text \<open>
  C2. For every string and every buffer, \<open>escape\<close> adds to the line, in input order,
  what the specification's table makes of each byte: the two-character escapes for
  the quote, the backslash, backspace, form feed, newline, carriage return and tab,
  \<open>\u00XX\<close> in lowercase hexadecimal for the other bytes below 0x20, and every
  other byte (those from 0x80 on too) unchanged.
\<close>

theorem escape_emits_spec:
  "emitted (escape b s) = emitted b @ concat (map spec_escape_byte s)"
  by (simp add: escaped_spec)

lemma hexval_hexdigit: "k < 16 \<Longrightarrow> hexval (hexdigit k) = Some k"
  by (simp add: hexval_def hexdigit_def Let_def)

lemma utf8_enc_byte: "(of_char c :: nat) < 32 \<Longrightarrow> utf8_enc (of_char c) = [c]"
  by (simp add: utf8_enc_def)

lemma utf8_len_ascii: "(of_char c :: nat) < 128 \<Longrightarrow> utf8_len (c # r) = 1"
  by (simp add: utf8_len_def)

lemma unescape_ascii:
  assumes "(of_char c :: nat) < 128"
  shows "json_unescape (spec_escape_byte c @ r) = map_option ((#) c) (json_unescape r)"
proof (cases "(of_char c :: nat) < 32")
  case True
  then have "(of_char c :: nat) div 16 < 16" "(of_char c :: nat) mod 16 < 16"
    by simp_all
  moreover have "hexval CHR ''0'' = Some 0"
    by (simp add: hexval_def)
  moreover have "((0 * 16 + 0) * 16 + (of_char c :: nat) div 16) * 16 + of_char c mod 16 = of_char c"
    by simp
  moreover have "(@) [c] = (#) c"
    by (rule ext) simp
  ultimately show ?thesis
    using True
    by (auto simp: spec_escape_byte_def unescape_simple_def hex4_def hexval_hexdigit
        utf8_enc_byte option.map_comp comp_def)
next
  case False
  moreover have "(@) [c] = (#) c"
    by (rule ext) simp
  ultimately show ?thesis
    using assms
    by (auto simp: spec_escape_byte_def unescape_simple_def utf8_len_ascii)
qed

lemma seq_ok_prefix: "seq_ok k lo hi r \<Longrightarrow> seq_ok k lo hi (take k r @ t)"
  by (cases r; cases k) (auto simp: seq_ok_def)

lemma seq_ok_high:
  "seq_ok k lo hi r \<Longrightarrow> k \<le> length r \<and> list_all (\<lambda>x. 128 \<le> (of_char x :: nat)) (take k r)"
  by (cases r) (auto simp: seq_ok_def cont_byte_def list_all_iff)

lemma utf8_len_high:
  assumes "128 \<le> (of_char c :: nat)" and "utf8_len (c # r) \<noteq> 0"
  shows "utf8_len (c # r) - 1 \<le> length r"
    and "list_all (\<lambda>x. 128 \<le> (of_char x :: nat)) (take (utf8_len (c # r) - 1) r)"
    and "utf8_len (c # take (utf8_len (c # r) - 1) r @ t) = utf8_len (c # r)"
proof -
  obtain k lo hi where li: "lead_info (of_char c) = (k, lo, hi)"
    by (cases "lead_info (of_char c)") auto
  with assms have ok: "seq_ok k lo hi r" and n: "utf8_len (c # r) = k + 1"
    by (auto simp: utf8_len_def split: if_splits)
  from seq_ok_high [OF ok] n
  show "utf8_len (c # r) - 1 \<le> length r"
    and "list_all (\<lambda>x. 128 \<le> (of_char x :: nat)) (take (utf8_len (c # r) - 1) r)"
    by simp_all
  from seq_ok_prefix [OF ok, of t] assms(1) li n
  show "utf8_len (c # take (utf8_len (c # r) - 1) r @ t) = utf8_len (c # r)"
    by (simp add: utf8_len_def)
qed

lemma escaped_high: "list_all (\<lambda>x. 128 \<le> (of_char x :: nat)) s \<Longrightarrow> escaped s = s"
  by (induction s) (auto simp: escaped_Cons noEsc_def)

lemma unescape_sequence:
  assumes "128 \<le> (of_char c :: nat)" and "utf8_len (c # r) \<noteq> 0"
  shows "json_unescape (c # take (utf8_len (c # r) - 1) r @ t) =
         map_option ((@) (c # take (utf8_len (c # r) - 1) r)) (json_unescape t)"
proof -
  from assms(1) have "c \<noteq> CHR 0x5C" "c \<noteq> CHR 0x22" "\<not> (of_char c :: nat) < 32"
    by auto
  with utf8_len_high(1) [OF assms] utf8_len_high(3) [OF assms, of t] assms(2) show ?thesis
    by simp
qed

lemma json_unescape_escaped: "valid_utf8 s \<Longrightarrow> json_unescape (escaped s) = Some s"
proof (induction s rule: valid_utf8.induct)
  case (1 s)
  show ?case
  proof (cases s)
    case Nil
    then show ?thesis by simp
  next
    case (Cons c r)
    with "1.prems" have n: "utf8_len (c # r) \<noteq> 0"
      and v: "valid_utf8 (drop (utf8_len (c # r)) (c # r))"
      by (auto simp: valid_utf8.simps [of "c # r"] split: if_splits)
    from "1.IH" Cons n v
    have IH: "json_unescape (escaped (drop (utf8_len (c # r)) (c # r))) =
        Some (drop (utf8_len (c # r)) (c # r))"
      by simp
    show ?thesis
    proof (cases "(of_char c :: nat) < 128")
      case True
      with IH have "json_unescape (escaped r) = Some r"
        by (simp add: utf8_len_ascii)
      with True Cons show ?thesis
        by (simp add: escaped_Cons escape_byte_spec unescape_ascii)
    next
      case False
      then have hi: "128 \<le> (of_char c :: nat)" by simp
      let ?k = "utf8_len (c # r) - 1"
      from n have d: "drop (utf8_len (c # r)) (c # r) = drop ?k r"
        by (cases "utf8_len (c # r)") simp_all
      have r: "r = take ?k r @ drop ?k r" by simp
      from hi have "noEsc c" by (auto simp: noEsc_def)
      then have "escaped (c # r) = c # escaped (take ?k r @ drop ?k r)"
        by (simp add: escaped_Cons)
      also have "\<dots> = c # take ?k r @ escaped (drop ?k r)"
        by (simp only: escaped_append escaped_high [OF utf8_len_high(2) [OF hi n]])
      finally have "json_unescape (escaped (c # r)) =
          map_option ((@) (c # take ?k r)) (json_unescape (escaped (drop ?k r)))"
        by (simp only: unescape_sequence [OF hi n])
      with IH d Cons show ?thesis
        by simp
    qed
  qed
qed

lemma json_unescape_examples:
  "json_unescape [CHR 0x5C, CHR ''u'', CHR ''0'', CHR ''0'', CHR ''4'', CHR ''1''] = Some ''A''"
  "json_unescape [CHR 0x5C, CHR ''u'', CHR ''0'', CHR ''0'', CHR ''e'', CHR ''9''] =
     Some [CHR 0xC3, CHR 0xA9]"
  "json_unescape [CHR 0x5C, CHR ''u'', CHR ''d'', CHR ''8'', CHR ''3'', CHR ''d'',
                  CHR 0x5C, CHR ''u'', CHR ''d'', CHR ''e'', CHR ''0'', CHR ''0''] =
     Some [CHR 0xF0, CHR 0x9F, CHR 0x98, CHR 0x80]"
  "json_unescape [CHR 0x5C, CHR ''u'', CHR ''d'', CHR ''8'', CHR ''0'', CHR ''0''] =
     Some [CHR 0xEF, CHR 0xBF, CHR 0xBD]"
  "json_unescape [CHR 0x5C, CHR ''n''] = Some [CHR 0x0A]"
  "json_unescape [CHR 0x5C, CHR ''x''] = None"
  "json_unescape [CHR 0x22] = None"
  "json_unescape [CHR 0x0A] = None"
  "json_unescape [CHR 0xC3, CHR 0xA9] = Some [CHR 0xC3, CHR 0xA9]"
  "json_unescape [CHR 0xC3, CHR ''a''] = Some [CHR 0xEF, CHR 0xBF, CHR 0xBD, CHR ''a'']"
  by (simp_all add: hex4_def getu4_def hexval_def utf8_enc_def unescape_simple_def
      char_of_nat_eq utf8_len_def lead_info_def seq_ok_def cont_byte_def replacement_char_def)

lemma emitted_new_buffer: "emitted new_buffer = []"
  by (simp add: emitted_def new_buffer_def)

text \<open>
  C6. The claim fails for a string that is not well-formed UTF-8: \<open>escape\<close> passes
  the byte 0xFF on as it is, and un-escaping gives U+FFFD in its place.
\<close>

theorem invalid_utf8_counterexample:
  "emitted (escape new_buffer [CHR 0xFF]) = [CHR 0xFF] \<and>
   json_unescape (emitted (escape new_buffer [CHR 0xFF])) = Some [CHR 0xEF, CHR 0xBF, CHR 0xBD] \<and>
   json_unescape (emitted (escape new_buffer [CHR 0xFF])) \<noteq> Some [CHR 0xFF]"
  by (simp add: emitted_new_buffer escaped_def noEsc_def utf8_len_def lead_info_def
      seq_ok_def replacement_char_def)

text \<open>
  C6, as the code has it. For every string that is well-formed UTF-8, what
  \<open>escape\<close> adds to the line un-escapes, as the body of a JSON string, to the
  string itself: quotes, backslashes and control bytes included.
\<close>

theorem escape_round_trip:
  assumes "valid_utf8 s"
  shows "\<exists>e. emitted (escape b s) = emitted b @ e \<and> json_unescape e = Some s"
  using assms by (simp add: json_unescape_escaped)

lemma valid_utf8_example: "valid_utf8 [CHR ''a'', CHR 0x22, CHR 0x5C, CHR 0x0A, CHR 0xC3, CHR 0xA9]"
  by (simp add: valid_utf8.simps utf8_len_def lead_info_def seq_ok_def cont_byte_def)

theorem escape_round_trip_witness:
  "valid_utf8 [CHR ''a'', CHR 0x22, CHR 0x5C, CHR 0x0A, CHR 0xC3, CHR 0xA9] \<and>
   emitted (escape new_buffer [CHR ''a'', CHR 0x22, CHR 0x5C, CHR 0x0A, CHR 0xC3, CHR 0xA9]) =
     [CHR ''a'', CHR 0x5C, CHR 0x22, CHR 0x5C, CHR 0x5C, CHR 0x5C, CHR ''n'', CHR 0xC3, CHR 0xA9] \<and>
   json_unescape (emitted (escape new_buffer
       [CHR ''a'', CHR 0x22, CHR 0x5C, CHR 0x0A, CHR 0xC3, CHR 0xA9])) =
     Some [CHR ''a'', CHR 0x22, CHR 0x5C, CHR 0x0A, CHR 0xC3, CHR 0xA9]"
  using escape_round_trip [OF valid_utf8_example, of new_buffer] valid_utf8_example
  by (simp add: emitted_new_buffer escaped_def noEsc_def escape_next_def)

section \<open>The trace of a line\<close>

lemma all_writes_snoc [simp]: "all_writes (es @ [WWrite s]) = all_writes es"
  by (induction es rule: all_writes.induct) auto

lemma locked_trace_snoc: "locked_trace es \<Longrightarrow> locked_trace (es @ [WWrite s])"
  by (induction es rule: locked_trace.induct) auto

lemma extends_refl [simp]: "extends h b b"
  by (simp add: extends_def)

lemma extends_trans: "extends h b b1 \<Longrightarrow> extends h b1 b2 \<Longrightarrow> extends h b b2"
  by (auto simp: extends_def)

lemma extends_mono: "extends h b b1 \<Longrightarrow> h \<le> k \<Longrightarrow> extends k b b1"
  by (auto simp: extends_def)

lemma buffer_ok_delim [simp]: "buffer_ok (b\<lparr>delim := d\<rparr>) = buffer_ok b"
  by (simp add: buffer_ok_def trace_ok_def)

lemma extends_delim: "extends h b b1 \<Longrightarrow> extends h b (b1\<lparr>delim := d\<rparr>)"
  by (simp add: extends_def)

lemma extends_delim_left: "extends h b b1 \<Longrightarrow> extends h (b\<lparr>delim := d\<rparr>) b1"
  by (simp add: extends_def)

lemma lock_extends:
  "scratch_cap < length (emitted b) + h \<Longrightarrow> buf b \<noteq> [] \<Longrightarrow> extends h b (lock b)"
  by (auto simp: extends_def buffer_ok_def trace_ok_def lock_def Let_def emitted_def
      locked_trace_snoc)

lemma write1_extends: "extends 0 b (write1 b s)"
  by (auto simp: extends_def buffer_ok_def trace_ok_def write1_def lock_def Let_def emitted_def
      locked_trace_snoc)

lemma go_append_extends: "extends 0 b (go_append g b s)"
  by (auto simp: extends_def buffer_ok_def trace_ok_def go_append_def Let_def emitted_def)

lemma writeBytes_extends: "extends 0 b (writeBytes g b s)"
  by (auto simp: extends_def buffer_ok_def trace_ok_def writeBytes_def go_append_def lock_def
      Let_def emitted_def locked_trace_snoc)

lemma write_strs_extends: "extends 0 b (write_strs b ss)"
proof (induction ss arbitrary: b)
  case Nil
  show ?case by simp
next
  case (Cons s ss)
  show ?case
    using write1_extends Cons.IH by (simp only: write_strs.simps) (rule extends_trans)
qed

lemma escape_loop_extends: "extends 0 b (escape_loop b s beg i)"
proof (induction b s beg i rule: escape_loop.induct)
  case (1 b s beg i)
  show ?case
  proof (cases "i < length s")
    case False
    then show ?thesis
      by (subst escape_loop.simps) (simp add: write1_extends)
  next
    case True
    show ?thesis
    proof (cases "noEsc (s ! i)")
      case True
      with \<open>i < length s\<close> "1.IH"(1) show ?thesis
        by (subst escape_loop.simps) simp
    next
      case False
      let ?b2 = "write_strs (write_strs b [slice s beg i]) [escape_next (s ! i)]"
      have A: "extends 0 b ?b2"
        by (rule extends_trans [OF write_strs_extends write_strs_extends])
      have B: "extends 0 ?b2 (escape_loop ?b2 s (i + 1) (i + 1))"
        by (rule "1.IH"(2) [OF \<open>i < length s\<close> refl False refl refl refl])
      show ?thesis
        using extends_trans [OF A B] False \<open>i < length s\<close>
        by (subst escape_loop.simps) (simp add: Let_def)
    qed
  qed
qed

lemma escapeBytes_loop_extends: "extends 0 b (escapeBytes_loop g b s beg i)"
proof (induction g b s beg i rule: escapeBytes_loop.induct)
  case (1 g b s beg i)
  show ?case
  proof (cases "i < length s")
    case False
    then show ?thesis
      by (subst escapeBytes_loop.simps) (simp add: writeBytes_extends)
  next
    case True
    show ?thesis
    proof (cases "noEsc (s ! i)")
      case True
      with \<open>i < length s\<close> "1.IH"(1) show ?thesis
        by (subst escapeBytes_loop.simps) simp
    next
      case False
      let ?b2 = "write_strs (writeBytes g b (slice s beg i)) [escape_next (s ! i)]"
      have A: "extends 0 b ?b2"
        by (rule extends_trans [OF writeBytes_extends write_strs_extends])
      have B: "extends 0 ?b2 (escapeBytes_loop g ?b2 s (i + 1) (i + 1))"
        by (rule "1.IH"(2) [OF \<open>i < length s\<close> refl False refl refl refl])
      show ?thesis
        using extends_trans [OF A B] False \<open>i < length s\<close>
        by (subst escapeBytes_loop.simps) (simp add: Let_def)
    qed
  qed
qed

lemma escape_extends: "extends 0 b (escape b s)"
  by (simp add: escape_def escape_loop_extends)

lemma escapeBytes_extends: "extends 0 b (escapeBytes g b s)"
  by (simp add: escapeBytes_def escapeBytes_loop_extends)

lemma quote_extends: "extends 0 b (quote b s)"
  unfolding quote_def Let_def
  by (rule extends_delim, rule extends_trans [OF write_strs_extends],
      rule extends_trans [OF escape_extends], rule write_strs_extends)

lemma quoteBytes_extends: "extends 0 b (quoteBytes g b s)"
  unfolding quoteBytes_def Let_def
  by (rule extends_trans [OF write_strs_extends],
      rule extends_trans [OF escapeBytes_extends], rule write_strs_extends)

lemma open_punct_extends: "extends 0 b (open_punct b p)"
  unfolding open_punct_def by (rule extends_delim, rule write_strs_extends)

lemma colon_extends: "extends 0 b (colon b)"
  unfolding colon_def by (rule extends_delim, rule write_strs_extends)

lemma close_punct_extends: "extends 0 b (close_punct b p)"
  unfolding close_punct_def by (rule extends_delim, rule write_strs_extends)

lemma scalar_begin_extends: "extends 64 b (scalar_begin b)"
proof -
  let ?b2 = "(write_strs b [delim b])\<lparr>delim := []\<rparr>"
  have 1: "extends 64 b ?b2"
    by (rule extends_delim, rule extends_mono [OF write_strs_extends]) simp
  have 2: "extends 64 ?b2 (if bcap ?b2 < length (buf ?b2) + 64 then lock ?b2 else ?b2)"
  proof (cases "buffer_ok ?b2 \<and> bcap ?b2 < length (buf ?b2) + 64")
    case True
    then have "buf ?b2 \<noteq> []" "scratch_cap < length (emitted ?b2) + 64"
      by (auto simp: buffer_ok_def scratch_cap_def emitted_def)
    then show ?thesis
      using True by (simp add: lock_extends del: delim_upd_emitted)
  next
    case False
    then show ?thesis
      by (auto simp: extends_def)
  qed
  show ?thesis
    unfolding scalar_begin_def Let_def by (rule extends_trans [OF 1 2])
qed

lemma extends_64: "extends 0 b b1 \<Longrightarrow> extends 64 b b1"
  using extends_mono [of 0 b b1 64] by simp

lemma scalar_extends_all:
  "extends 64 b (scalar S g b v)"
  "extends 64 b (scalar_switch S g b v)"
  "extends 64 b (strings_loop S g b ss)"
  "extends 64 b (alist_loop S g b vs)"
  "extends 64 b (rawmap_loop S g b i vs)"
  "extends 64 b (pair S g b k v)"
  "extends 64 b (pairs_loop S g b kvs)"
  "extends 64 b (pairs S g b m)"
proof (induction S g b v and S g b v and S g b ss and S g b vs and S g b i vs
    and S g b k v and S g b kvs and S g b m
    rule: scalar_scalar_switch_strings_loop_alist_loop_rawmap_loop_pair_pairs_loop_pairs.induct)
  case (1 S g b v)
  show ?case
  proof (cases "is_empty_AMap v")
    case True
    then show ?thesis by (simp add: scalar.simps)
  next
    case False
    from extends_trans [OF scalar_begin_extends "1.IH" [OF False]] False
    show ?thesis by (simp add: scalar.simps extends_delim)
  qed
next
  case (10 S g b ss)
  show ?case
    unfolding scalar_switch.simps
    by (rule extends_trans [OF extends_64 [OF open_punct_extends]],
        rule extends_trans [OF "10.IH"], rule extends_64 [OF close_punct_extends])
next
  case (11 S g b vs)
  show ?case
    unfolding scalar_switch.simps
    by (rule extends_trans [OF extends_64 [OF open_punct_extends]],
        rule extends_trans [OF "11.IH"], rule extends_64 [OF close_punct_extends])
next
  case (12 S g b vs)
  let ?b1 = "rawmap_loop S g (open_punct b ''{'') 0 vs"
  let ?b2 = "if 1 = 1 AND length vs then scalar S g ?b1 VNil else ?b1"
  have A: "extends 64 b ?b1"
    by (rule extends_trans [OF extends_64 [OF open_punct_extends] "12.IH"(1)])
  have B: "extends 64 ?b1 ?b2"
    using "12.IH"(2) [OF refl] by simp
  show ?case
    unfolding scalar_switch.simps Let_def
    by (rule extends_trans [OF A], rule extends_trans [OF B],
        rule extends_64 [OF close_punct_extends])
next
  case (13 S g b m)
  show ?case
    unfolding scalar_switch.simps
    by (rule extends_trans [OF extends_64 [OF open_punct_extends]],
        rule extends_trans [OF "13.IH"], rule extends_64 [OF close_punct_extends])
next
  case (14 S g b kvs)
  show ?case
    unfolding scalar_switch.simps
    by (rule extends_trans [OF extends_64 [OF open_punct_extends]],
        rule extends_trans [OF "14.IH"], rule extends_64 [OF close_punct_extends])
next
  case (16 S g b r)
  show ?case
    by (cases r) (simp_all add: extends_64 quote_extends writeBytes_extends)
next
  case (18 S g b s ss)
  show ?case
    unfolding strings_loop.simps by (rule extends_trans [OF "18.IH"])
next
  case (20 S g b v vs)
  show ?case
    unfolding alist_loop.simps by (rule extends_trans [OF "20.IH"])
next
  case (22 S g b i elt elts)
  let ?b1 = "if 0 = 1 AND i then colon (quote b (S elt)) else scalar S g b elt"
  have A: "extends 64 b ?b1"
  proof (cases "0 = 1 AND i")
    case True
    then show ?thesis
      using extends_64 [OF extends_trans [OF quote_extends colon_extends]] by simp
  next
    case False
    then show ?thesis using "22.IH"(1) by simp
  qed
  show ?case
    unfolding rawmap_loop.simps by (rule extends_trans [OF A "22.IH"(2)])
next
  case (23 S g b k v)
  show ?case
    unfolding pair.simps
    by (rule extends_trans [OF extends_64 [OF extends_trans [OF quote_extends colon_extends]]
          "23.IH"])
next
  case (25 S g b kv kvs)
  show ?case
    unfolding pairs_loop.simps by (rule extends_trans [OF "25.IH"])
qed (simp_all add: extends_64 write1_extends quote_extends quoteBytes_extends go_append_extends)

lemma final_buffer_simps [simp]:
  "final_buffer (Inr b) = b" "final_buffer (Inl (e, b)) = b"
  by (simp_all add: final_buffer_def)

lemma and_then_extends:
  assumes "extends h b (final_buffer r)"
    and "\<And>b1. r = Inr b1 \<Longrightarrow> extends h b1 (final_buffer (f b1))"
  shows "extends h b (final_buffer (and_then r f))"
proof (cases r)
  case (Inl e)
  with assms(1) show ?thesis by (simp add: and_then_def)
next
  case (Inr b1)
  with assms(1) have "extends h b b1" by simp
  from extends_trans [OF this assms(2) [OF Inr]] Inr show ?thesis
    by (simp add: and_then_def)
qed

lemma int2_extends: "extends 0 b (final_buffer (int2 b v))"
  by (auto simp: int2_def Let_def extends_def buffer_ok_def trace_ok_def emitted_def)

lemma int_pad_extends: "extends 0 b (final_buffer (int_pad g b v digits))"
proof -
  let ?b1 = "go_append g b (format_int v)"
  have A: "extends 0 b ?b1" by (rule go_append_extends)
  have B: "extends 0 ?b1 (final_buffer (int_pad g b v digits))"
    by (auto simp: int_pad_def Let_def extends_def buffer_ok_def trace_ok_def emitted_def)
  show ?thesis by (rule extends_trans [OF A B])
qed

lemma int2_write_extends: "extends 64 b (final_buffer (int2 (write_strs b ss) v))"
  by (rule extends_64, rule extends_trans [OF write_strs_extends int2_extends])

lemma int_pad_write_extends:
  "extends 64 b (final_buffer (int_pad g (write_strs b ss) v digits))"
  by (rule extends_64, rule extends_trans [OF write_strs_extends int_pad_extends])

lemma timestamp_extends: "extends 64 b (final_buffer (timestamp g b now))"
proof -
  let ?b0 = "if bcap b < length (buf b) + 22 then lock b else b"
  let ?b3 = "write_strs (go_append g (write_strs ?b0 [[CHR 0x22]]) (format_int (Year now))) [''-'']"
  have 0: "extends 64 b ?b0"
  proof (cases "buffer_ok b \<and> bcap b < length (buf b) + 22")
    case True
    then have "buf b \<noteq> []" "scratch_cap < length (emitted b) + 64"
      by (auto simp: buffer_ok_def scratch_cap_def emitted_def)
    then show ?thesis
      using True by (simp add: lock_extends)
  next
    case False
    then show ?thesis
      by (auto simp: extends_def)
  qed
  have 3: "extends 64 b ?b3"
    by (rule extends_trans [OF 0], rule extends_64,
        rule extends_trans [OF write_strs_extends],
        rule extends_trans [OF go_append_extends], rule write_strs_extends)
  have last: "extends 64 b9 (final_buffer (Inr ((write_strs b9 ss)\<lparr>delim := d\<rparr>)))" for b9 ss d
    by (simp add: extends_delim extends_64 write_strs_extends)
  have tail: "extends 64 ?b3 (final_buffer
      (and_then (int2 ?b3 (Month now)) (\<lambda>b4.
       and_then (int2 (write_strs b4 [''-'']) (Day now)) (\<lambda>b5.
       and_then (int2 (write_strs b5 ['' '']) (Hour now)) (\<lambda>b6.
       and_then (int2 (write_strs b6 ['':'']) (Minute now)) (\<lambda>b7.
       and_then (int2 (write_strs b7 ['':'']) (Second now)) (\<lambda>b8.
       and_then (int_pad g (write_strs b8 [''.'']) (go_quot (Nanosecond now) 1000000) 3) (\<lambda>b9.
       Inr ((write_strs b9 [[CHR ''Z'', CHR 0x22]])\<lparr>delim := comma\<rparr>)))))))))"
    by (intro and_then_extends int2_write_extends int_pad_write_extends last
        extends_64 [OF int2_extends])
  show ?thesis
    unfolding timestamp_def Let_def by (rule extends_trans [OF 3 tail])
qed

lemma step_extends: "extends 64 b (final_buffer (step S g b x))"
  by (cases x)
     (simp_all add: extends_64 write_strs_extends writeBytes_extends quote_extends
       quoteBytes_extends escape_extends escapeBytes_extends int2_extends int_pad_extends
       timestamp_extends open_punct_extends colon_extends close_punct_extends
       scalar_extends_all)

lemma compose_extends: "extends 64 b (final_buffer (compose S g b xs))"
proof (induction xs arbitrary: b)
  case Nil
  show ?case by simp
next
  case (Cons x xs)
  show ?case
  proof (cases "step S g b x")
    case (Inl e)
    with step_extends [of b S g x] show ?thesis
      by (simp add: final_buffer_def)
  next
    case (Inr b1)
    with step_extends [of b S g x] have "extends 64 b b1" by simp
    from extends_trans [OF this Cons.IH] Inr show ?thesis by simp
  qed
qed

lemma unlock_trace:
  "trace (unlock b) =
     trace b @ (if buf b = [] then [] else [WWrite (buf b)]) @ (if locked b then [MuUnlock] else [])"
  by (simp add: unlock_def Let_def)

lemma plain_step_extends: "plain_op x \<Longrightarrow> extends 0 b (final_buffer (step S g b x))"
  by (cases x)
     (simp_all add: write_strs_extends writeBytes_extends quote_extends
       quoteBytes_extends escape_extends escapeBytes_extends
       open_punct_extends colon_extends close_punct_extends)

lemma plain_compose_extends:
  "list_all plain_op xs \<Longrightarrow> extends 0 b (final_buffer (compose S g b xs))"
proof (induction xs arbitrary: b)
  case Nil
  show ?case by simp
next
  case (Cons x xs)
  then have px: "plain_op x" and pxs: "list_all plain_op xs" by simp_all
  show ?case
  proof (cases "step S g b x")
    case (Inl e)
    with plain_step_extends [OF px, of b S g] show ?thesis
      by (simp add: final_buffer_def)
  next
    case (Inr b1)
    with plain_step_extends [OF px, of b S g] have "extends 0 b b1" by simp
    from extends_trans [OF this Cons.IH [OF pxs]] Inr show ?thesis by simp
  qed
qed

text \<open>
  C1. Take a buffer that is well-formed and does not hold the mutex (so that nothing
  has been done to the stream or the mutex for this line), compose a line by any
  sequence of operations, and release it. Up to the release the trace is either empty
  (and the lock flag clear), or it starts by taking the mutex, goes on with a write at
  once, and holds nothing but writes after that (and the lock flag is set): every
  early write is made under the mutex, which is taken at the first of them and not
  given back. The release then adds the write of what is still buffered, if anything,
  and gives the mutex back if it was taken.
\<close>

theorem early_writes_hold_lock:
  assumes "buffer_ok b0" and "\<not> locked b0"
    and "b = final_buffer (compose S g b0 ops)"
  shows "trace b0 = [] \<and>
         (if locked b then locked_trace (trace b) else trace b = []) \<and>
         trace (unlock b) =
           trace b @ (if buf b = [] then [] else [WWrite (buf b)])
                   @ (if locked b then [MuUnlock] else [])"
proof -
  have "trace b0 = []"
    using assms(1,2) by (simp add: buffer_ok_def trace_ok_def)
  moreover have "buffer_ok b"
    using compose_extends [of b0 S g ops] assms(1,3) by (simp add: extends_def)
  then have "if locked b then locked_trace (trace b) else trace b = []"
    by (simp add: buffer_ok_def trace_ok_def)
  ultimately show ?thesis
    by (simp add: unlock_trace)
qed

lemma new_buffer_ok: "buffer_ok new_buffer" "\<not> locked new_buffer"
  by (simp_all add: buffer_ok_def trace_ok_def new_buffer_def)

lemma overflowing_line:
  "final_buffer (compose (\<lambda>v. []) (\<lambda>c n. 0) new_buffer
       [OpWrite [replicate 16384 CHR ''x''], OpWrite [''y'']]) =
     \<lparr>buf = ''y'', bcap = 16384, delim = [], locked = True,
      trace = [MuLock, WWrite (replicate 16384 CHR ''x'')]\<rparr>"
  by (simp add: new_buffer_def scratch_cap_def write1_def lock_def Let_def)

theorem early_writes_hold_lock_witness:
  "buffer_ok new_buffer \<and> \<not> locked new_buffer \<and>
   trace (unlock (final_buffer (compose (\<lambda>v. []) (\<lambda>c n. 0) new_buffer
       [OpWrite [replicate 16384 CHR ''x''], OpWrite [''y'']]))) =
     [MuLock, WWrite (replicate 16384 CHR ''x''), WWrite ''y'', MuUnlock]"
  using early_writes_hold_lock [OF new_buffer_ok refl, of "\<lambda>v. []" "\<lambda>c n. 0"
      "[OpWrite [replicate 16384 CHR ''x''], OpWrite [''y'']]"] new_buffer_ok
  unfolding overflowing_line by simp

text \<open>
  C5, as the code has it. Compose a line as above. If the whole line, together with
  64 bytes of headroom, fits the scratch region (no headroom is needed when the
  line is put together by \<open>write\<close>, \<open>writeBytes\<close>, the quoting and escaping
  operations and the punctuation alone), then the mutex is never touched and nothing
  reaches the stream before the release, and the release makes exactly one write, of
  the whole line, unless the line is empty: then it makes none.
\<close>

theorem single_write_when_line_fits:
  assumes "buffer_ok b0" and "\<not> locked b0"
    and "b = final_buffer (compose S g b0 ops)"
    and "length (emitted b) + (if list_all plain_op ops then 0 else 64) \<le> scratch_cap"
  shows "\<not> locked b \<and> trace b = [] \<and>
         trace (unlock b) = (if emitted b = [] then [] else [WWrite (emitted b)])"
proof -
  have ok: "buffer_ok b"
    using compose_extends [of b0 S g ops] assms(1,3) by (simp add: extends_def)
  have "\<not> locked b"
  proof (cases "list_all plain_op ops")
    case True
    with plain_compose_extends [OF True, of b0 S g] assms show ?thesis
      by (auto simp: extends_def)
  next
    case False
    with compose_extends [of b0 S g ops] assms show ?thesis
      by (auto simp: extends_def)
  qed
  moreover from this ok have "trace b = []"
    by (simp add: buffer_ok_def trace_ok_def)
  ultimately show ?thesis
    by (simp add: unlock_trace emitted_def)
qed

lemma short_line:
  "final_buffer (compose (\<lambda>v. []) (\<lambda>c n. 0) new_buffer
       [OpWrite [''ab''], OpWriteBytes ''cd'']) =
     \<lparr>buf = ''abcd'', bcap = 16384, delim = [], locked = False, trace = []\<rparr>"
  by (simp add: new_buffer_def scratch_cap_def write1_def writeBytes_def go_append_def Let_def)

theorem single_write_when_line_fits_witness:
  "buffer_ok new_buffer \<and> \<not> locked new_buffer \<and>
   length (emitted (final_buffer (compose (\<lambda>v. []) (\<lambda>c n. 0) new_buffer
       [OpWrite [''ab''], OpWriteBytes ''cd'']))) + 0 \<le> scratch_cap \<and>
   trace (unlock (final_buffer (compose (\<lambda>v. []) (\<lambda>c n. 0) new_buffer
       [OpWrite [''ab''], OpWriteBytes ''cd'']))) = [WWrite ''abcd'']"
  using single_write_when_line_fits [OF new_buffer_ok refl, of "\<lambda>v. []" "\<lambda>c n. 0"
      "[OpWrite [''ab''], OpWriteBytes ''cd'']"] new_buffer_ok
  unfolding short_line by (simp add: emitted_def scratch_cap_def)

text \<open>
  C5. The claim as stated fails twice. A line with no bytes is released without any
  write. And a line of 16331 bytes, 16330 of them written and then the scalar 1, fits
  the 16384 bytes of scratch, yet \<open>scalar\<close> finds fewer than 64 bytes free, takes
  the mutex and flushes: two writes reach the stream, under the lock.
\<close>

theorem line_that_fits_counterexample:
  "trace (unlock (final_buffer (compose (\<lambda>v. []) (\<lambda>c n. 0) new_buffer []))) = [] \<and>
   length (emitted (final_buffer (compose (\<lambda>v. []) (\<lambda>c n. 0) new_buffer
       [OpWrite [replicate 16330 CHR ''x''], OpScalar (VInt 1)]))) = 16331 \<and>
   16331 \<le> scratch_cap \<and>
   trace (unlock (final_buffer (compose (\<lambda>v. []) (\<lambda>c n. 0) new_buffer
       [OpWrite [replicate 16330 CHR ''x''], OpScalar (VInt 1)]))) =
     [MuLock, WWrite (replicate 16330 CHR ''x''), WWrite ''1'', MuUnlock]"
  by (simp add: new_buffer_def scratch_cap_def unlock_def write1_def lock_def Let_def
      scalar.simps scalar_begin_def go_append_def emitted_def format_int_def digits10.simps
      char_of_nat_eq)

section \<open>Encoding values\<close>

lemma write1_reslice_in_bounds:
  "\<not> bcap (if bcap b < length (buf b) + length s then lock b else b) < length s \<Longrightarrow>
   length (buf (if bcap b < length (buf b) + length s then lock b else b)) + length s
     \<le> bcap (if bcap b < length (buf b) + length s then lock b else b)"
  by (auto simp: lock_def Let_def split: if_splits)

lemma digits10_small: "n < 10 \<Longrightarrow> digits10 n = [char_of (48 + n)]"
  by (simp add: digits10.simps)

lemma format_int_1 [simp]: "format_int 1 = ''1''"
  by (simp add: format_int_def digits10_small char_of_nat_eq)

lemma format_int_2 [simp]: "format_int 2 = ''2''"
  by (simp add: format_int_def digits10_small char_of_nat_eq)

lemma format_int_5 [simp]: "format_int 5 = ''5''"
  by (simp add: format_int_def digits10_small char_of_nat_eq)

lemma escaped_plain: "\<forall>c \<in> set s. noEsc c \<Longrightarrow> escaped s = s"
  by (induction s) (simp_all add: escaped_Cons)

lemma scalar_empty [simp]:
  "scalar S g b (VAMap None) = b" "scalar S g b (VAMap (Some [])) = b"
  by (simp_all add: scalar.simps)

text \<open>
  C3. Given a nil or an empty \<open>AMap\<close>, \<open>scalar\<close> returns the buffer as it got
  it: nothing is emitted and no field changes. As the value of a pair, the quoted key
  and the colon are on the line by then and stay there, the pending delimiter is
  empty, and the quote of the next key follows the colon at once: a parent map with
  \<open>a\<close> (an empty map) and \<open>b\<close> (2) comes out as \<open>{"a":"b":2}\<close>.
\<close>

theorem empty_AMap_emits_nothing:
  "scalar S g b (VAMap None) = b \<and> scalar S g b (VAMap (Some [])) = b \<and>
   pair S g b k (VAMap None) = colon (quote b k) \<and>
   pair S g b k (VAMap (Some [])) = colon (quote b k) \<and>
   delim (colon (quote b k)) = [] \<and>
   emitted (colon (quote b k)) = emitted b @ delim b @ ''\"'' @ escaped k @ ''\":'' \<and>
   emitted (quote (pair S g b k (VAMap (Some []))) k2) =
     emitted b @ delim b @ ''\"'' @ escaped k @ ''\":\"'' @ escaped k2 @ ''\"'' \<and>
   emitted (scalar S g b (VAMap (Some [(''a'', VAMap (Some [])), (''b'', VInt 2)]))) =
     emitted b @ delim b @ ''{\"a\":\"b\":2}''"
  by (simp add: pair.simps scalar.simps escaped_def noEsc_def)

lemma ordered_map_bytes:
  "emitted (scalar S g b (VAMap (Some [(''a'', VInt 1), (''b'', VString ''x\"y'')]))) =
     emitted b @ delim b @ ''{\"a\":1, \"b\":\"x'' @ [CHR 0x5C] @ ''\"y\"}''"
  by (simp add: pair.simps scalar.simps escaped_def noEsc_def escape_next_def comma_def)

lemma new_buffer_empty [simp]: "emitted new_buffer = []" "delim new_buffer = []"
  by (simp_all add: emitted_def new_buffer_def)

text \<open>
  C4. The claim as stated fails: the map with \<open>a\<close> (1) and \<open>b\<close> (the string
  \<open>x"y\<close>) does not come out with a bare comma between its pairs.
\<close>

theorem bare_comma_counterexample:
  "emitted (scalar (\<lambda>v. []) (\<lambda>c n. 0) new_buffer
      (VAMap (Some [(''a'', VInt 1), (''b'', VString ''x\"y'')])))
   \<noteq> ''{\"a\":1,\"b\":\"x'' @ [CHR 0x5C] @ ''\"y\"}''"
  by (simp add: ordered_map_bytes)

text \<open>
  C4, as the code has it. Encoding that map adds the pending delimiter and then
  exactly \<open>{"a":1, "b":"x\"y"}\<close>: the delimiter between completed values is the
  constant \<open>comma\<close>, a comma followed by a space.
\<close>

theorem AMap_example:
  "emitted (scalar S g b (VAMap (Some [(''a'', VInt 1), (''b'', VString ''x\"y'')]))) =
     emitted b @ delim b @ ''{\"a\":1, \"b\":\"x'' @ [CHR 0x5C] @ ''\"y\"}'' \<and>
   comma = '', ''"
  by (simp add: ordered_map_bytes comma_def)

subsection \<open>The flat alternating list\<close>








subsection \<open>Headroom for numbers\<close>

lemma digits10_length: "0 < k \<Longrightarrow> n < 10 ^ k \<Longrightarrow> length (digits10 n) \<le> k"
proof (induction n arbitrary: k rule: digits10.induct)
  case (1 n)
  show ?case
  proof (cases "n < 10")
    case True
    with "1.prems" show ?thesis by (simp add: digits10.simps)
  next
    case False
    with "1.prems" obtain j where k: "k = Suc j"
      by (cases k) auto
    with False "1.prems" have "0 < j"
      by (cases j) auto
    moreover from k "1.prems" have "n div 10 < 10 ^ j"
      by (simp add: less_mult_imp_div_less mult.commute)
    ultimately have "length (digits10 (n div 10)) \<le> j"
      using "1.IH" [OF False] by simp
    with False k show ?thesis
      by (subst digits10.simps) simp
  qed
qed

lemma digits10_unat_length: "length (digits10 (unat (u :: 64 word))) \<le> 20"
proof -
  have "unat u < 2 ^ 64"
    using unsigned_less [of u, where 'a = nat] by simp
  then have "unat u < 10 ^ 20" by simp
  then show ?thesis by (intro digits10_length) simp_all
qed

lemma format_int_sint_length: "length (format_int (sint (i :: 64 word))) \<le> 20"
proof -
  have "- (2 ^ 63) \<le> sint i" "sint i < 2 ^ 63"
    using sint_ge [of i] sint_lt [of i] by simp_all
  then have "nat (- sint i) < 10 ^ 19" "nat (sint i) < 10 ^ 19"
    by simp_all
  then have "length (digits10 (nat (- sint i))) \<le> 19" "length (digits10 (nat (sint i))) \<le> 19"
    by (simp_all add: digits10_length)
  then show ?thesis
    by (simp add: format_int_def)
qed

lemma scalar_begin_headroom:
  "scratch_cap \<le> bcap b \<Longrightarrow> length (buf (scalar_begin b)) + 64 \<le> bcap (scalar_begin b)"
  by (auto simp: scalar_begin_def write1_def lock_def Let_def scratch_cap_def)

lemma go_append_in_place:
  "length (buf b) + length s \<le> bcap b \<Longrightarrow> go_append g b s = b\<lparr>buf := buf b @ s\<rparr>"
  by (simp add: go_append_def)

text \<open>
  C7. In any state the encoder can be in (reached from a well-formed buffer by any
  operations), \<open>scalar\<close> on a value it does not skip runs its switch on
  \<open>scalar_begin b\<close>, where at least 64 bytes are free: if they were not free after
  the pending delimiter was written, the buffer was flushed by \<open>lock\<close>. The digits
  of a 64-bit integer, signed or not, take at most 20 bytes, so that
  \<open>strconv.AppendInt\<close> and \<open>AppendUint\<close> append them in place, within the
  capacity; so does \<open>AppendFloat\<close> with a text of at most 64 bytes.
\<close>

theorem scalar_leaves_headroom:
  assumes "buffer_ok b0" and "b = final_buffer (compose S g b0 ops)"
    and "\<not> is_empty_AMap v"
  shows "scalar S g b v = (scalar_switch S g (scalar_begin b) v)\<lparr>delim := comma\<rparr> \<and>
         scalar_begin b =
           (if bcap (write_strs b [delim b]) < length (buf (write_strs b [delim b])) + 64
            then lock ((write_strs b [delim b])\<lparr>delim := []\<rparr>)
            else (write_strs b [delim b])\<lparr>delim := []\<rparr>) \<and>
         length (buf (scalar_begin b)) + 64 \<le> bcap (scalar_begin b) \<and>
         length (format_int (sint i)) \<le> 20 \<and> length (digits10 (unat u)) \<le> 20 \<and>
         scalar_switch S g (scalar_begin b) (VInt i) =
           (scalar_begin b)\<lparr>buf := buf (scalar_begin b) @ format_int (sint i)\<rparr> \<and>
         scalar_switch S g (scalar_begin b) (VUint u) =
           (scalar_begin b)\<lparr>buf := buf (scalar_begin b) @ digits10 (unat u)\<rparr> \<and>
         (if length t \<le> 64
          then scalar_switch S g (scalar_begin b) (VFloat32 t) =
                 (scalar_begin b)\<lparr>buf := buf (scalar_begin b) @ t\<rparr> \<and>
               scalar_switch S g (scalar_begin b) (VFloat64 t) =
                 (scalar_begin b)\<lparr>buf := buf (scalar_begin b) @ t\<rparr>
          else True)"
proof -
  have "buffer_ok b"
    using compose_extends [of b0 S g ops] assms(1,2) by (simp add: extends_def)
  then have "scratch_cap \<le> bcap b"
    by (simp add: buffer_ok_def)
  then have room: "length (buf (scalar_begin b)) + 64 \<le> bcap (scalar_begin b)"
    by (rule scalar_begin_headroom)
  have i: "length (format_int (sint i)) \<le> 20" and u: "length (digits10 (unat u)) \<le> 20"
    by (rule format_int_sint_length, rule digits10_unat_length)
  have 1: "scalar S g b v = (scalar_switch S g (scalar_begin b) v)\<lparr>delim := comma\<rparr>"
    using assms(3) by (simp add: scalar.simps)
  have 2: "scalar_begin b =
           (if bcap (write_strs b [delim b]) < length (buf (write_strs b [delim b])) + 64
            then lock ((write_strs b [delim b])\<lparr>delim := []\<rparr>)
            else (write_strs b [delim b])\<lparr>delim := []\<rparr>)"
    by (simp add: scalar_begin_def Let_def)
  have 3: "scalar_switch S g (scalar_begin b) (VInt i) =
           (scalar_begin b)\<lparr>buf := buf (scalar_begin b) @ format_int (sint i)\<rparr>"
    using room i by (simp add: go_append_in_place)
  have 4: "scalar_switch S g (scalar_begin b) (VUint u) =
           (scalar_begin b)\<lparr>buf := buf (scalar_begin b) @ digits10 (unat u)\<rparr>"
    using room u by (simp add: go_append_in_place)
  have 5: "length t \<le> 64 \<Longrightarrow>
      scalar_switch S g (scalar_begin b) (VFloat32 t) =
        (scalar_begin b)\<lparr>buf := buf (scalar_begin b) @ t\<rparr> \<and>
      scalar_switch S g (scalar_begin b) (VFloat64 t) =
        (scalar_begin b)\<lparr>buf := buf (scalar_begin b) @ t\<rparr>"
    using room by (simp add: go_append_in_place)
  from 1 2 room i u 3 4 5 show ?thesis
    by simp
qed

lemma nearly_full_line:
  "final_buffer (compose (\<lambda>v. []) (\<lambda>c n. 0) new_buffer [OpWrite [replicate 16330 CHR ''x'']]) =
     \<lparr>buf = replicate 16330 CHR ''x'', bcap = 16384, delim = [], locked = False, trace = []\<rparr>"
  by (simp add: new_buffer_def scratch_cap_def write1_def Let_def)

theorem scalar_leaves_headroom_witness:
  "buffer_ok new_buffer \<and> \<not> is_empty_AMap (VInt 1) \<and>
   scalar (\<lambda>v. []) (\<lambda>c n. 0)
     \<lparr>buf = replicate 16330 CHR ''x'', bcap = 16384, delim = [], locked = False, trace = []\<rparr>
     (VInt 1) =
   \<lparr>buf = ''1'', bcap = 16384, delim = comma, locked = True,
    trace = [MuLock, WWrite (replicate 16330 CHR ''x'')]\<rparr>"
  using scalar_leaves_headroom [OF new_buffer_ok(1) refl, of "VInt 1" "\<lambda>v. []" "\<lambda>c n. 0"
      "[OpWrite [replicate 16330 CHR ''x'']]" 1 0 "[]"] new_buffer_ok
  unfolding nearly_full_line
  by (simp add: scalar_begin_def write1_def lock_def Let_def scratch_cap_def go_append_def)

subsection \<open>The timestamp\<close>

lemma go_quot_nonneg: "0 \<le> a \<Longrightarrow> 0 < b \<Longrightarrow> go_quot a b = a div b"
  by (cases "a = 0") (simp_all add: go_quot_def)

lemma go_rem_nonneg: "0 \<le> a \<Longrightarrow> 0 < b \<Longrightarrow> go_rem a b = a mod b"
  by (simp add: go_rem_def go_quot_nonneg minus_mult_div_eq_mod)

lemma write1_in_place:
  "length (buf b) + length s \<le> bcap b \<Longrightarrow> write1 b s = b\<lparr>buf := buf b @ s\<rparr>"
  by (simp add: write1_def)

lemma int2_in_place:
  "length (buf b) + 2 \<le> bcap b \<Longrightarrow> 0 \<le> v \<Longrightarrow>
   int2 b v = Inr (b\<lparr>buf := buf b @ two_digits v\<rparr>)"
  by (simp add: int2_def two_digits_def go_quot_nonneg go_rem_nonneg)

lemma int_pad_in_place:
  "length (buf b) + 3 \<le> bcap b \<Longrightarrow> length (format_int v) \<le> 3 \<Longrightarrow>
   int_pad g b v 3 = Inr (b\<lparr>buf := buf b @ zero_pad 3 (format_int v)\<rparr>)"
  by (auto simp: int_pad_def Let_def go_append_in_place zero_pad_def)

lemma length_two_digits [simp]: "length (two_digits v) = 2"
  by (simp add: two_digits_def)

lemma length_zero_pad: "length s \<le> n \<Longrightarrow> length (zero_pad n s) = n"
  by (simp add: zero_pad_def)

lemma emitted_buf_append: "emitted (b\<lparr>buf := buf b @ x\<rparr>) = emitted b @ x"
  by (simp add: emitted_def)

lemma and_then_Inr [simp]: "and_then (Inr b) f = f b"
  by (simp add: and_then_def)

lemma and_then_Inl [simp]: "and_then (Inl e) f = Inl e"
  by (simp add: and_then_def)

lemma timestamp_renders:
  assumes ok: "scratch_cap \<le> bcap b"
    and room: "length (buf b) + 24 \<le> bcap b \<or> bcap b < length (buf b) + 22"
    and yr: "length (format_int (Year now)) \<le> 4"
    and nonneg: "0 \<le> Month now" "0 \<le> Day now" "0 \<le> Hour now" "0 \<le> Minute now"
      "0 \<le> Second now"
    and ns: "0 \<le> Nanosecond now" "Nanosecond now < 1000000000"
  shows "\<exists>b1. timestamp g b now = Inr b1 \<and> emitted b1 = emitted b @ spec_timestamp now
           \<and> delim b1 = comma"
proof -
  define b0 where "b0 = (if bcap b < length (buf b) + 22 then lock b else b)"
  have r0: "length (buf b0) + 24 \<le> bcap b0"
    using ok room by (auto simp: b0_def lock_def Let_def scratch_cap_def)
  have e0: "emitted b0 = emitted b"
    by (simp add: b0_def)
  have ms: "go_quot (Nanosecond now) 1000000 = Nanosecond now div 1000000"
    using ns by (simp add: go_quot_nonneg)
  have "nat (Nanosecond now div 1000000) < 10 ^ 3"
    using ns by simp
  then have "length (digits10 (nat (Nanosecond now div 1000000))) \<le> 3"
    by (intro digits10_length) simp_all
  moreover have "0 \<le> Nanosecond now div 1000000"
    using ns by simp
  ultimately have l3: "length (format_int (Nanosecond now div 1000000)) \<le> 3"
    by (simp add: format_int_def)
  have "timestamp g b now =
      Inr ((write_strs
             (b0\<lparr>buf := buf b0 @ ''\"'' @ format_int (Year now) @ ''-'' @ two_digits (Month now)
                 @ ''-'' @ two_digits (Day now) @ '' '' @ two_digits (Hour now) @ '':''
                 @ two_digits (Minute now) @ '':'' @ two_digits (Second now) @ ''.''
                 @ zero_pad 3 (format_int (Nanosecond now div 1000000))\<rparr>)
             [''Z\"''])\<lparr>delim := comma\<rparr>)"
    unfolding timestamp_def Let_def b0_def [symmetric] ms
    using r0 yr nonneg l3
    by (simp add: write1_in_place go_append_in_place int2_in_place int_pad_in_place
        length_zero_pad)
  then show ?thesis
    by (simp add: emitted_buf_append e0 spec_timestamp_def)
qed

lemma char_of_int_eq: "(char_of (n :: int) = c) = (n mod 256 = of_char c)"
  by (simp add: char_of_eq_iff take_bit_eq_mod)

lemma format_int_examples:
  "format_int 2024 = ''2024''" "format_int 123 = ''123''"
  by (simp_all add: format_int_def digits10.simps [of 2024] digits10.simps [of 202]
      digits10.simps [of 20] digits10.simps [of 123] digits10.simps [of 12]
      digits10_small char_of_nat_eq)

lemma timestamp_example:
  "timestamp g new_buffer
     \<lparr>Year = 2024, Month = 3, Day = 7, Hour = 8, Minute = 9, Second = 10,
      Nanosecond = 123000000\<rparr> =
   Inr \<lparr>buf = ''\"2024-03-07 08:09:10.123Z\"'', bcap = 16384, delim = '', '',
        locked = False, trace = []\<rparr>"
  by (simp add: timestamp_def new_buffer_def scratch_cap_def write1_def go_append_def int2_def
      int_pad_def Let_def go_quot_def go_rem_def format_int_examples char_of_int_eq comma_def)

text \<open>
  C9 fails on a buffer with 22 bytes free when the milliseconds have one digit: the
  check at the top of \<open>timestamp\<close> asks for 22 bytes, the writes up to the
  milliseconds take 21 of them and \<open>int\<close> reslices to three more, beyond the capacity.
  After \<open>b.write\<close> of 16362 bytes on a new buffer, \<open>timestamp\<close> at
  2024-03-07 08:09:10.005 panics with
  \<open>slice bounds out of range [:16386] with capacity 16384\<close>.
\<close>

theorem timestamp_panics_when_22_bytes_free:
  "timestamp g (write_strs new_buffer [replicate 16362 CHR ''x''])
     \<lparr>Year = 2024, Month = 3, Day = 7, Hour = 8, Minute = 9, Second = 10,
      Nanosecond = 5000000\<rparr> =
   Inl (SliceBounds 16386 16384,
        \<lparr>buf = replicate 16362 CHR ''x'' @ ''\"2024-03-07 08:09:10.5'', bcap = 16384,
         delim = [], locked = False, trace = []\<rparr>)"
  by (simp add: timestamp_def new_buffer_def scratch_cap_def write1_def go_append_def int2_def
      int_pad_def Let_def go_quot_def go_rem_def format_int_examples char_of_int_eq)

section \<open>Release\<close>

text \<open>
  C10. Whatever the state of the buffer, \<open>unlock\<close> changes only the slice (its bytes
  go to the stream and it is reset to the empty start of the scratch region), the lock
  flag, which it clears, and thereby the stream and the mutex; the pending delimiter
  is as it was before.
\<close>

theorem unlock_frame:
  "unlock b = b\<lparr>buf := [],
                 bcap := (if buf b = [] then bcap b else scratch_cap),
                 locked := False,
                 trace := trace b @ (if buf b = [] then [] else [WWrite (buf b)])
                                  @ (if locked b then [MuUnlock] else [])\<rparr>
   \<and> delim (unlock b) = delim b"
  by (simp add: unlock_def Let_def)

end
